theory Spec2Isabelle
  imports Complex_Main "HOL-Library.Word"
begin

unbundle bit_operations_syntax

section \<open>Data model\<close>

text \<open>
  A \<^verbatim>\<open>Uint8Array\<close> is a list of 8-bit words; storing a number into one keeps it
  modulo 256, which is what \<open>word_of_nat\<close> does. JavaScript numbers that count or index
  (lengths, offsets, symbol indices, run counts) are natural numbers; wherever the source
  stores one into a fixed-width field (\<^verbatim>\<open>setUint16\<close>, \<^verbatim>\<open>setUint32\<close>, a
  \<^verbatim>\<open>Uint32Array\<close> element) the wrap-around is written out.
  Allocation limits of the runtime (the largest typed array, the largest plain array) are
  not part of the model.
\<close>

type_synonym byte = "8 word"
type_synonym Uint8Array = "byte list"

text \<open>
  What the source throws: the four \<^verbatim>\<open>new Error(...)\<close> of \<^verbatim>\<open>decompress\<close>, the
  \<^verbatim>\<open>RangeError\<close> of a \<^verbatim>\<open>DataView\<close> read past the end of the view (and of a
  \<^verbatim>\<open>Uint32Array\<close> view longer than its buffer), and the \<^verbatim>\<open>TypeError\<close> of a
  property read on \<^verbatim>\<open>null\<close>.
\<close>

datatype error =
    TooShort
  | BadMagic
  | UnsupportedVersion nat
  | UnknownMode nat
  | RangeError
  | TypeError

definition MAGIC :: "Uint8Array" where
  "MAGIC = [0x50, 0x57, 0x44, 0x43]"

definition VERSION :: nat where
  "VERSION = 2"

subsection \<open>Typed-array and DataView primitives\<close>

text \<open>\<^verbatim>\<open>a[i]\<close> on a typed array: \<^verbatim>\<open>undefined\<close> (here \<open>None\<close>) out of range.\<close>

definition elemAt :: "Uint8Array \<Rightarrow> nat \<Rightarrow> byte option" where
  "elemAt a i = (if i < length a then Some (a ! i) else None)"

text \<open>\<^verbatim>\<open>a[i]\<close> used as an operand of a bit operation: \<^verbatim>\<open>undefined\<close> counts as 0.\<close>

definition atNum :: "Uint8Array \<Rightarrow> nat \<Rightarrow> nat" where
  "atNum a i = (case elemAt a i of None \<Rightarrow> 0 | Some b \<Rightarrow> unat b)"

text \<open>Storing a possibly undefined value into a typed array: \<^verbatim>\<open>undefined\<close> is stored as 0.\<close>

definition toUint8 :: "byte option \<Rightarrow> byte" where
  "toUint8 v = (case v of None \<Rightarrow> 0 | Some b \<Rightarrow> b)"

text \<open>\<^verbatim>\<open>a.slice(start, end)\<close> for \<open>0 \<le> start \<le> end\<close>: clamped to the array.\<close>

definition sliceArr :: "'a list \<Rightarrow> nat \<Rightarrow> nat \<Rightarrow> 'a list" where
  "sliceArr a start fin = take (fin - start) (drop start a)"

text \<open>Little-endian field encodings; the value is reduced modulo the field's range.\<close>

definition u16le :: "nat \<Rightarrow> Uint8Array" where
  "u16le n = [word_of_nat n, word_of_nat (n div 256)]"

definition u32le :: "nat \<Rightarrow> Uint8Array" where
  "u32le n = [word_of_nat n, word_of_nat (n div 256), word_of_nat (n div 65536),
              word_of_nat (n div 16777216)]"

text \<open>
  \<^verbatim>\<open>output.set(bytes, off)\<close>, and a loop \<^verbatim>\<open>output[offset++] = b\<close> over \<open>bytes\<close>.
  An element store past the end of a typed array is ignored, as \<open>list_update\<close> does.
  (Every store of the encoders is in range: the arrays are allocated to the computed size.)
\<close>

fun setBytes :: "Uint8Array \<Rightarrow> nat \<Rightarrow> Uint8Array \<Rightarrow> Uint8Array" where
  "setBytes out off [] = out"
| "setBytes out off (b # bs) = setBytes (out[off := b]) (Suc off) bs"

definition setUint16 :: "Uint8Array \<Rightarrow> nat \<Rightarrow> nat \<Rightarrow> Uint8Array" where
  "setUint16 out off n = setBytes out off (u16le n)"

definition setUint32 :: "Uint8Array \<Rightarrow> nat \<Rightarrow> nat \<Rightarrow> Uint8Array" where
  "setUint32 out off n = setBytes out off (u32le n)"

text \<open>\<^verbatim>\<open>view.getUint16(off, true)\<close> and \<^verbatim>\<open>view.getUint32(off, true)\<close>.\<close>

definition getUint16 :: "Uint8Array \<Rightarrow> nat \<Rightarrow> error + nat" where
  "getUint16 v off =
     (if off + 2 \<le> length v
      then Inr (unat (v ! off) + 256 * unat (v ! (off + 1)))
      else Inl RangeError)"

definition getUint32 :: "Uint8Array \<Rightarrow> nat \<Rightarrow> error + nat" where
  "getUint32 v off =
     (if off + 4 \<le> length v
      then Inr (unat (v ! off) + 256 * unat (v ! (off + 1)) + 65536 * unat (v ! (off + 2))
                + 16777216 * unat (v ! (off + 3)))
      else Inl RangeError)"

section \<open>Symbol remapper (photonic-transform.ts)\<close>

text \<open>\<^verbatim>\<open>380 + (byte / 255) * 400\<close>, as an exact rational.\<close>

definition byteToWavelength :: "byte \<Rightarrow> rat" where
  "byteToWavelength b = 380 + (of_nat (unat b) / 255) * 400"

section \<open>Single-buffer codec (spectral-compress.ts)\<close>

subsection \<open>Histogram and symbol table\<close>

text \<open>
  A JavaScript \<^verbatim>\<open>Map\<close> keeps its keys in insertion order: an association list where
  \<^verbatim>\<open>set\<close> replaces the value of a key that is present and appends a new key.
\<close>

fun mapSet :: "'k \<Rightarrow> 'v \<Rightarrow> ('k \<times> 'v) list \<Rightarrow> ('k \<times> 'v) list" where
  "mapSet k v [] = [(k, v)]"
| "mapSet k v ((k', v') # m) = (if k = k' then (k, v) # m else (k', v') # mapSet k v m)"

definition mapGet :: "('k \<times> 'v) list \<Rightarrow> 'k \<Rightarrow> 'v option" where
  "mapGet m k = map_of m k"

definition mapKeys :: "('k \<times> 'v) list \<Rightarrow> 'k list" where
  "mapKeys m = map fst m"

text \<open>\<^verbatim>\<open>histogram.set(data[i], (histogram.get(data[i]) || 0) + 1)\<close> for every \<open>i\<close>.\<close>

fun buildHistogram :: "Uint8Array \<Rightarrow> (byte \<times> nat) list \<Rightarrow> (byte \<times> nat) list" where
  "buildHistogram [] h = h"
| "buildHistogram (d # ds) h =
     buildHistogram ds (mapSet d ((case mapGet h d of None \<Rightarrow> 0 | Some c \<Rightarrow> c) + 1) h)"

text \<open>\<^verbatim>\<open>uniqueBytes.forEach((b, i) => byteToIndex.set(b, i))\<close>.\<close>

fun buildIndex :: "byte list \<Rightarrow> nat \<Rightarrow> (byte \<times> nat) list \<Rightarrow> (byte \<times> nat) list" where
  "buildIndex [] i m = m"
| "buildIndex (b # bs) i m = buildIndex bs (Suc i) (mapSet b i m)"

text \<open>
  \<^verbatim>\<open>byteToIndex.get(b)!\<close> used as a number. The lookup never misses in \<^verbatim>\<open>compress\<close>
  (every byte of the data is a key, lemma \<open>getIdx_buildIndex\<close> below); a miss would be
  \<^verbatim>\<open>undefined\<close>, which the bit operations and the typed-array stores read as 0.
\<close>

definition getIdx :: "(byte \<times> nat) list \<Rightarrow> byte \<Rightarrow> nat" where
  "getIdx m b = (case mapGet m b of None \<Rightarrow> 0 | Some i \<Rightarrow> i)"

text \<open>
  \<^verbatim>\<open>Math.ceil(Math.log2(n))\<close> for \<open>n \<ge> 1\<close>: the least \<open>k\<close> with \<open>n \<le> 2 ^ k\<close>
  (lemma \<open>ceilLog2_least\<close> below).
\<close>

function ceilLog2 :: "nat \<Rightarrow> nat" where
  "ceilLog2 n = (if n \<le> 1 then 0 else Suc (ceilLog2 ((n + 1) div 2)))"
  by pat_completeness auto
termination
  by (relation "measure (\<lambda>n. n)") auto

declare ceilLog2.simps [simp del]

text \<open>\<^verbatim>\<open>Math.max(1, Math.ceil(Math.log2(n || 1)))\<close> for the table length \<open>n\<close>.\<close>

definition bitsFor :: "nat \<Rightarrow> nat" where
  "bitsFor n = max 1 (ceilLog2 (if n = 0 then 1 else n))"

text \<open>\<^verbatim>\<open>Math.ceil(bitsPerIndex / 8)\<close>.\<close>

definition ceilDiv8 :: "nat \<Rightarrow> nat" where
  "ceilDiv8 n = (n + 7) div 8"

subsection \<open>Encoders\<close>

text \<open>\<^verbatim>\<open>output[i] |= v\<close> on a \<^verbatim>\<open>Uint8Array\<close>: the low 8 bits of \<open>v\<close> are or-ed in.\<close>

definition orAt :: "Uint8Array \<Rightarrow> nat \<Rightarrow> nat \<Rightarrow> Uint8Array" where
  "orAt out i v = out[i := (out ! i) OR word_of_nat v]"

text \<open>
  One iteration of the bit-packing loop of \<^verbatim>\<open>encodeMode0\<close> (lines 100-111): the index
  is or-ed into the byte at \<open>bitPos\<close> and, when it crosses a byte boundary, into the next
  one or two bytes. The shifts are those of the source: \<^verbatim>\<open><<\<close> is \<open>push_bit\<close>,
  \<^verbatim>\<open>>>\<close> is \<open>drop_bit\<close> (the operands stay far below \<open>2 ^ 31\<close>).
\<close>

definition packStep :: "nat \<Rightarrow> nat \<Rightarrow> nat \<Rightarrow> nat \<Rightarrow> Uint8Array \<Rightarrow> Uint8Array" where
  "packStep bitsPerIndex packedStart idx bitPos output =
     (let byteOffset = packedStart + bitPos div 8;
          bitOffset = bitPos mod 8;
          output = orAt output byteOffset (push_bit bitOffset idx AND 0xff);
          output = (if bitOffset + bitsPerIndex > 8
                    then orAt output (byteOffset + 1) (drop_bit (8 - bitOffset) idx AND 0xff)
                    else output)
      in if bitOffset + bitsPerIndex > 16
         then orAt output (byteOffset + 2) (drop_bit (16 - bitOffset) idx AND 0xff)
         else output)"

text \<open>
  The bit-packing loop (lines 96-113): one iteration per data byte, \<open>bitPos\<close> advancing
  by \<open>bitsPerIndex\<close>.
\<close>

fun packLoop ::
  "(byte \<times> nat) list \<Rightarrow> nat \<Rightarrow> nat \<Rightarrow> Uint8Array \<Rightarrow> nat \<Rightarrow> Uint8Array \<Rightarrow> Uint8Array" where
  "packLoop byteToIndex bitsPerIndex packedStart [] bitPos output = output"
| "packLoop byteToIndex bitsPerIndex packedStart (d # ds) bitPos output =
     packLoop byteToIndex bitsPerIndex packedStart ds (bitPos + bitsPerIndex)
       (packStep bitsPerIndex packedStart (getIdx byteToIndex d) bitPos output)"

text \<open>
  The header and channel table that \<^verbatim>\<open>encodeMode0\<close> and \<^verbatim>\<open>encodeMode1\<close> both write
  (lines 83-93 and 153-163) into the zero-filled output.
\<close>

definition writeHeader :: "Uint8Array \<Rightarrow> nat \<Rightarrow> nat \<Rightarrow> byte list \<Rightarrow> Uint8Array" where
  "writeHeader output mode dataLength uniqueBytes =
     (let output = setBytes output 0 MAGIC;
          output = output[4 := word_of_nat VERSION];
          output = output[5 := word_of_nat mode];
          output = setUint32 output 6 dataLength;
          output = setUint16 output 10 (length uniqueBytes)
      in setBytes output 12 uniqueBytes)"

text \<open>Mode 0: symbol table and bit-packed index stream. (The histogram argument is unused.)\<close>

definition encodeMode0 ::
  "Uint8Array \<Rightarrow> byte list \<Rightarrow> (byte \<times> nat) list \<Rightarrow> nat \<Rightarrow> Uint8Array" where
  "encodeMode0 data uniqueBytes byteToIndex bitsPerIndex =
     (let headerSize = 4 + 1 + 1 + 4 + 2;
          channelTableSize = length uniqueBytes;
          packedDataSize = (length data * bitsPerIndex + 7) div 8;
          totalSize = headerSize + channelTableSize + packedDataSize;
          output = replicate totalSize 0;
          output = writeHeader output 0 (length data) uniqueBytes;
          packedStart = 12 + length uniqueBytes
      in packLoop byteToIndex bitsPerIndex packedStart data 0 output)"

text \<open>
  The run-building loop of \<^verbatim>\<open>encodeMode1\<close> (lines 131-141): runs are pairs
  (index, count), a run is closed when the index changes or the count has reached 65535.
\<close>

fun rleLoop ::
  "(byte \<times> nat) list \<Rightarrow> Uint8Array \<Rightarrow> nat \<Rightarrow> nat \<Rightarrow> (nat \<times> nat) list \<Rightarrow> (nat \<times> nat) list" where
  "rleLoop byteToIndex [] currentIndex runCount rleRuns = rleRuns @ [(currentIndex, runCount)]"
| "rleLoop byteToIndex (d # ds) currentIndex runCount rleRuns =
     (let idx = getIdx byteToIndex d
      in if idx = currentIndex \<and> runCount < 65535
         then rleLoop byteToIndex ds currentIndex (runCount + 1) rleRuns
         else rleLoop byteToIndex ds idx 1 (rleRuns @ [(currentIndex, runCount)]))"

text \<open>The run-writing loop (lines 167-176); returns the output and the final offset.\<close>

fun writeRuns ::
  "Uint8Array \<Rightarrow> nat \<Rightarrow> nat \<Rightarrow> (nat \<times> nat) list \<Rightarrow> Uint8Array \<times> nat" where
  "writeRuns output offset runBytesPerIndex [] = (output, offset)"
| "writeRuns output offset runBytesPerIndex ((index, count) # runs) =
     (if runBytesPerIndex = 1
      then writeRuns (setUint16 (output[offset := word_of_nat index]) (offset + 1) count)
             (offset + 3) runBytesPerIndex runs
      else writeRuns (setUint16 (setUint16 output offset index) (offset + 2) count)
             (offset + 4) runBytesPerIndex runs)"

text \<open>
  Mode 1: symbol table and run-length encoding. \<^verbatim>\<open>data[0]\<close> is the head of the data
  (\<^verbatim>\<open>compress\<close> calls this with non-empty data only; on empty data the lookup would be
  \<^verbatim>\<open>undefined\<close>, stored as 0).
\<close>

definition encodeMode1 ::
  "Uint8Array \<Rightarrow> byte list \<Rightarrow> (byte \<times> nat) list \<Rightarrow> nat \<Rightarrow> Uint8Array" where
  "encodeMode1 data uniqueBytes byteToIndex bitsPerIndex =
     (let rleRuns = rleLoop byteToIndex (drop 1 data)
                      (case data of [] \<Rightarrow> 0 | d # _ \<Rightarrow> getIdx byteToIndex d) 1 [];
          runBytesPerIndex = ceilDiv8 bitsPerIndex;
          headerSize = 4 + 1 + 1 + 4 + 2;
          channelTableSize = length uniqueBytes;
          rleDataSize = 4 + length rleRuns * (runBytesPerIndex + 2);
          totalSize = headerSize + channelTableSize + rleDataSize;
          output = replicate totalSize 0;
          output = writeHeader output 1 (length data) uniqueBytes;
          offset = 12 + length uniqueBytes;
          output = setUint32 output offset (length rleRuns);
          (output, offset) = writeRuns output (offset + 4) runBytesPerIndex rleRuns
      in sliceArr output 0 offset)"

text \<open>Mode 255: raw passthrough.\<close>

definition encodeRaw :: "Uint8Array \<Rightarrow> Uint8Array" where
  "encodeRaw data =
     (let headerSize = 4 + 1 + 1 + 4;
          output = replicate (headerSize + length data) 0;
          output = setBytes output 0 MAGIC;
          output = output[4 := word_of_nat VERSION];
          output = output[5 := 255];
          output = setUint32 output 6 (length data)
      in setBytes output 10 data)"

text \<open>
  \<^verbatim>\<open>compress\<close>. The comparator of the sort subtracts wavelengths, so the unique bytes
  are sorted by \<open>byteToWavelength\<close>; \<^verbatim>\<open>Array.prototype.sort\<close> is stable, as the
  insertion sort \<open>sort_key\<close> is.
\<close>

definition compress :: "Uint8Array \<Rightarrow> Uint8Array" where
  "compress data =
     (if length data = 0 then MAGIC @ [word_of_nat VERSION, 0, 0, 0, 0, 0, 0]
      else
        let histogram = buildHistogram data [];
            uniqueBytes = sort_key byteToWavelength (mapKeys histogram);
            byteToIndex = buildIndex uniqueBytes 0 [];
            bitsPerIndex = bitsFor (length uniqueBytes);
            mode0 = encodeMode0 data uniqueBytes byteToIndex bitsPerIndex;
            mode1 = encodeMode1 data uniqueBytes byteToIndex bitsPerIndex;
            best = (if length mode0 \<le> length mode1 then mode0 else mode1)
        in if length best \<ge> length data + 10 then encodeRaw data else best)"

subsection \<open>Decoders\<close>

text \<open>
  \<^verbatim>\<open>uniqueBytes[idx]\<close> stored into the output: the table is a plain array whose
  entries may be \<^verbatim>\<open>undefined\<close> (read past the end of the input), and an index past the
  table reads \<^verbatim>\<open>undefined\<close> too; both are stored as 0.
\<close>

definition symbolAt :: "byte option list \<Rightarrow> nat \<Rightarrow> byte" where
  "symbolAt uniqueBytes idx = (if idx < length uniqueBytes then toUint8 (uniqueBytes ! idx) else 0)"

text \<open>
  The index read by one iteration of the loop of \<^verbatim>\<open>decompressMode0\<close> (lines 265-277);
  \<open>mask\<close> is \<^verbatim>\<open>(1 << bitsPerIndex) - 1\<close>.
\<close>

definition unpackIdx :: "Uint8Array \<Rightarrow> nat \<Rightarrow> nat \<Rightarrow> nat \<Rightarrow> nat" where
  "unpackIdx compressed packedStart bitsPerIndex bitPos =
     (let mask = push_bit bitsPerIndex 1 - 1;
          byteOffset = packedStart + bitPos div 8;
          bitOffset = bitPos mod 8;
          idx = drop_bit bitOffset (atNum compressed byteOffset) AND mask;
          idx = (if bitOffset + bitsPerIndex > 8 \<and> byteOffset + 1 < length compressed
                 then (idx OR (push_bit (8 - bitOffset) (atNum compressed (byteOffset + 1)) AND mask))
                      AND mask
                 else idx)
      in if bitOffset + bitsPerIndex > 16 \<and> byteOffset + 2 < length compressed
         then (idx OR (push_bit (16 - bitOffset) (atNum compressed (byteOffset + 2)) AND mask))
              AND mask
         else idx)"

text \<open>The unpacking loop (lines 264-281): \<open>n\<close> output bytes are still to be produced.\<close>

fun unpackLoop ::
  "Uint8Array \<Rightarrow> nat \<Rightarrow> nat \<Rightarrow> byte option list \<Rightarrow> nat \<Rightarrow> nat \<Rightarrow> Uint8Array" where
  "unpackLoop compressed packedStart bitsPerIndex uniqueBytes 0 bitPos = []"
| "unpackLoop compressed packedStart bitsPerIndex uniqueBytes (Suc n) bitPos =
     symbolAt uniqueBytes (unpackIdx compressed packedStart bitsPerIndex bitPos)
       # unpackLoop compressed packedStart bitsPerIndex uniqueBytes n (bitPos + bitsPerIndex)"

definition decompressMode0 ::
  "Uint8Array \<Rightarrow> nat \<Rightarrow> nat \<Rightarrow> byte option list \<Rightarrow> Uint8Array" where
  "decompressMode0 compressed packedStart originalSize uniqueBytes =
     unpackLoop compressed packedStart (bitsFor (length uniqueBytes)) uniqueBytes originalSize 0"

text \<open>
  The inner loop of the run expansion (lines 311-313 and 352-354):
  \<^verbatim>\<open>for (i = 0; i < count && outIdx < originalSize; i++) output[outIdx++] = byteVal\<close>.
\<close>

fun fillRun :: "Uint8Array \<Rightarrow> nat \<Rightarrow> byte \<Rightarrow> nat \<Rightarrow> nat \<Rightarrow> Uint8Array \<times> nat" where
  "fillRun output outIdx byteVal 0 originalSize = (output, outIdx)"
| "fillRun output outIdx byteVal (Suc c) originalSize =
     (if outIdx < originalSize
      then fillRun (output[outIdx := byteVal]) (Suc outIdx) byteVal c originalSize
      else (output, outIdx))"

text \<open>
  The run loop (lines 300-314 of \<^verbatim>\<open>decompressMode1\<close>, and the same text at lines 342-355
  of \<^verbatim>\<open>decompressV1\<close>): \<open>n\<close> runs are still to be read. A one-byte index is read with
  \<^verbatim>\<open>compressed[offset++]\<close> (possibly \<^verbatim>\<open>undefined\<close>), every other field through the
  \<^verbatim>\<open>DataView\<close>, which throws past the end.
\<close>

fun runLoop ::
  "Uint8Array \<Rightarrow> byte option list \<Rightarrow> nat \<Rightarrow> nat \<Rightarrow> nat \<Rightarrow> nat \<Rightarrow> Uint8Array \<Rightarrow> nat
     \<Rightarrow> error + Uint8Array" where
  "runLoop compressed uniqueBytes runBytesPerIndex originalSize 0 offset output outIdx = Inr output"
| "runLoop compressed uniqueBytes runBytesPerIndex originalSize (Suc n) offset output outIdx =
     (if runBytesPerIndex = 1
      then (let byteVal = (case elemAt compressed offset of None \<Rightarrow> 0
                           | Some index \<Rightarrow> symbolAt uniqueBytes (unat index))
            in case getUint16 compressed (offset + 1) of Inl e \<Rightarrow> Inl e
               | Inr count \<Rightarrow>
                   (let (output, outIdx) = fillRun output outIdx byteVal count originalSize
                    in runLoop compressed uniqueBytes runBytesPerIndex originalSize n (offset + 3)
                         output outIdx))
      else (case getUint16 compressed offset of Inl e \<Rightarrow> Inl e
            | Inr index \<Rightarrow>
                (case getUint16 compressed (offset + 2) of Inl e \<Rightarrow> Inl e
                 | Inr count \<Rightarrow>
                     (let (output, outIdx) =
                            fillRun output outIdx (symbolAt uniqueBytes index) count originalSize
                      in runLoop compressed uniqueBytes runBytesPerIndex originalSize n (offset + 4)
                           output outIdx))))"

definition decompressMode1 ::
  "Uint8Array \<Rightarrow> nat \<Rightarrow> nat \<Rightarrow> byte option list \<Rightarrow> error + Uint8Array" where
  "decompressMode1 compressed offset originalSize uniqueBytes =
     (let bitsPerIndex = bitsFor (length uniqueBytes);
          runBytesPerIndex = ceilDiv8 bitsPerIndex
      in case getUint32 compressed offset of Inl e \<Rightarrow> Inl e
         | Inr numRuns \<Rightarrow>
             runLoop compressed uniqueBytes runBytesPerIndex originalSize numRuns (offset + 4)
               (replicate originalSize 0) 0)"

text \<open>
  The table loop of \<^verbatim>\<open>decompress\<close> (lines 237-240): \<open>uniqueCount\<close> reads of
  \<^verbatim>\<open>compressed[offset++]\<close>.
\<close>

definition readTable :: "Uint8Array \<Rightarrow> nat \<Rightarrow> nat \<Rightarrow> byte option list" where
  "readTable compressed offset uniqueCount = map (\<lambda>i. elemAt compressed (offset + i)) [0..<uniqueCount]"

text \<open>
  The table loop of \<^verbatim>\<open>decompressV1\<close> (lines 330-334): each entry is one value byte,
  then four bytes that are skipped.
\<close>

definition readTableV1 :: "Uint8Array \<Rightarrow> nat \<Rightarrow> nat \<Rightarrow> byte option list" where
  "readTableV1 compressed offset uniqueCount =
     map (\<lambda>i. elemAt compressed (offset + 5 * i)) [0..<uniqueCount]"

text \<open>Version 1 (legacy) containers. The caller has checked that there are at least 10 bytes.\<close>

definition decompressV1 :: "Uint8Array \<Rightarrow> error + Uint8Array" where
  "decompressV1 compressed =
     (case getUint32 compressed 5 of Inl e \<Rightarrow> Inl e
      | Inr originalSize \<Rightarrow>
          if originalSize = 0 then Inr []
          else (case getUint16 compressed 9 of Inl e \<Rightarrow> Inl e
                | Inr uniqueCount \<Rightarrow>
                    (let bitsPerIndex = atNum compressed 11;
                         uniqueBytes = readTableV1 compressed 12 uniqueCount;
                         offset = 12 + 5 * uniqueCount;
                         runBytesPerIndex = ceilDiv8 bitsPerIndex
                     in case getUint32 compressed offset of Inl e \<Rightarrow> Inl e
                        | Inr numRuns \<Rightarrow>
                            runLoop compressed uniqueBytes runBytesPerIndex originalSize numRuns
                              (offset + 4) (replicate originalSize 0) 0)))"

definition decompress :: "Uint8Array \<Rightarrow> error + Uint8Array" where
  "decompress compressed =
     (if length compressed < 10 then Inl TooShort
      else if compressed ! 0 \<noteq> 0x50 \<or> compressed ! 1 \<noteq> 0x57 \<or> compressed ! 2 \<noteq> 0x44
              \<or> compressed ! 3 \<noteq> 0x43
      then Inl BadMagic
      else
        let version = unat (compressed ! 4)
        in if version \<noteq> VERSION \<and> version \<noteq> 1 then Inl (UnsupportedVersion version)
           else if version = 1 then decompressV1 compressed
           else
             let mode = unat (compressed ! 5)
             in case getUint32 compressed 6 of Inl e \<Rightarrow> Inl e
                | Inr originalSize \<Rightarrow>
                    if originalSize = 0 then Inr []
                    else if mode = 255 then Inr (sliceArr compressed 10 (10 + originalSize))
                    else (case getUint16 compressed 10 of Inl e \<Rightarrow> Inl e
                          | Inr uniqueCount \<Rightarrow>
                              (let uniqueBytes = readTable compressed 12 uniqueCount;
                                   offset = 12 + uniqueCount
                               in if mode = 0
                                  then Inr (decompressMode0 compressed offset originalSize uniqueBytes)
                                  else if mode = 1
                                  then decompressMode1 compressed offset originalSize uniqueBytes
                                  else Inl (UnknownMode mode))))"

section \<open>Frame-sequence codec (delta-spectral.ts)\<close>

text \<open>
  \<^verbatim>\<open>DeltaFrame\<close>: \<open>positions\<close> is a \<^verbatim>\<open>Uint32Array\<close>, \<open>vals\<close> (the source's
  \<^verbatim>\<open>values\<close>) a \<^verbatim>\<open>Uint8Array\<close>.
\<close>

record DeltaFrame =
  positions :: "32 word list"
  vals :: "Uint8Array"

text \<open>
  \<^verbatim>\<open>computeDelta\<close>: the first loop pushes every \<open>i < minLen\<close> where the buffers differ,
  the second every \<open>i\<close> from \<open>minLen\<close> up to the length of \<open>current\<close>; each push of
  \<open>i\<close> comes with a push of \<^verbatim>\<open>current[i]\<close>. \<^verbatim>\<open>new Uint32Array(positions)\<close> keeps every
  position modulo \<open>2 ^ 32\<close>.
\<close>

definition changedIndices :: "Uint8Array \<Rightarrow> Uint8Array \<Rightarrow> nat list" where
  "changedIndices previous current =
     (let minLen = min (length previous) (length current)
      in filter (\<lambda>i. previous ! i \<noteq> current ! i) [0..<minLen] @ [minLen..<length current])"

definition computeDelta :: "Uint8Array \<Rightarrow> Uint8Array \<Rightarrow> DeltaFrame" where
  "computeDelta previous current =
     (let changed = changedIndices previous current
      in \<lparr>positions = map word_of_nat changed, vals = map (\<lambda>i. current ! i) changed\<rparr>)"

text \<open>
  The loop of \<^verbatim>\<open>applyDelta\<close>: \<^verbatim>\<open>result[delta.positions[i]] = delta.values[i]\<close>. A store
  past the end of \<open>result\<close> is ignored; a value missing from \<open>values\<close> is stored as 0.
\<close>

fun applyLoop :: "32 word list \<Rightarrow> Uint8Array \<Rightarrow> nat \<Rightarrow> Uint8Array \<Rightarrow> Uint8Array" where
  "applyLoop [] vs i result = result"
| "applyLoop (p # ps) vs i result =
     applyLoop ps vs (Suc i) (result[unat p := toUint8 (elemAt vs i)])"

definition applyDelta :: "Uint8Array \<Rightarrow> DeltaFrame \<Rightarrow> nat \<Rightarrow> Uint8Array" where
  "applyDelta previous delta newLength =
     (let result = replicate newLength 0;
          result = setBytes result 0 (sliceArr previous 0 newLength)
      in applyLoop (positions delta) (vals delta) 0 result)"

text \<open>The 9-byte header of a Key unit and the 13-byte header of a Delta unit.\<close>

definition keyHeader :: "nat \<Rightarrow> nat \<Rightarrow> Uint8Array" where
  "keyHeader compressedLength frameLength =
     (let frameHeader = replicate 9 0;
          frameHeader = frameHeader[0 := 0x4b];
          frameHeader = setUint32 frameHeader 1 compressedLength
      in setUint32 frameHeader 5 frameLength)"

definition deltaHeader :: "nat \<Rightarrow> nat \<Rightarrow> nat \<Rightarrow> Uint8Array" where
  "deltaHeader numChanges posLength valLength =
     (let frameHeader = replicate 13 0;
          frameHeader = frameHeader[0 := 0x44];
          frameHeader = setUint32 frameHeader 1 numChanges;
          frameHeader = setUint32 frameHeader 5 posLength
      in setUint32 frameHeader 9 valLength)"

text \<open>
  \<^verbatim>\<open>new Uint8Array(delta.positions.buffer)\<close>: the bytes of the positions, four per
  position, in the byte order of the platform (little-endian here).
\<close>

definition positionBytes :: "32 word list \<Rightarrow> Uint8Array" where
  "positionBytes ps = concat (map (\<lambda>p. u32le (unat p)) ps)"

text \<open>
  The frame loop of \<^verbatim>\<open>compressFrameSequence\<close>: \<open>i\<close> is the frame number,
  \<open>referenceFrame\<close> is \<^verbatim>\<open>null\<close> (\<open>None\<close>) until a Key unit has been emitted.
  \<^verbatim>\<open>i % keyframeInterval === 0\<close> is false for the interval 0 (the remainder is NaN).
  \<^verbatim>\<open>computeDelta(null, ...)\<close> throws a \<^verbatim>\<open>TypeError\<close>.
  \<^verbatim>\<open>changeRatio > 0.5\<close>, with \<open>changeRatio\<close> the quotient of the two lengths, is
  \<open>2 * changes > length\<close>; for an empty frame the quotient is NaN and the test is false.
\<close>

fun compressLoop ::
  "nat \<Rightarrow> Uint8Array list \<Rightarrow> nat \<Rightarrow> Uint8Array option \<Rightarrow> Uint8Array list
     \<Rightarrow> error + Uint8Array list" where
  "compressLoop keyframeInterval [] i referenceFrame chunks = Inr chunks"
| "compressLoop keyframeInterval (frame # frames) i referenceFrame chunks =
     (let isKeyframe = (keyframeInterval \<noteq> 0 \<and> i mod keyframeInterval = 0)
      in if isKeyframe
         then (let compressed = compress frame
               in compressLoop keyframeInterval frames (Suc i) (Some frame)
                    (chunks @ [keyHeader (length compressed) (length frame), compressed]))
         else (case referenceFrame of None \<Rightarrow> Inl TypeError
               | Some reference \<Rightarrow>
                   (let delta = computeDelta reference frame
                    in if 2 * length (positions delta) > length frame
                       then (let compressed = compress frame
                             in compressLoop keyframeInterval frames (Suc i) (Some frame)
                                  (chunks @ [keyHeader (length compressed) (length frame), compressed]))
                       else (let compressedValues = compress (vals delta);
                                 posBytes = positionBytes (positions delta)
                             in compressLoop keyframeInterval frames (Suc i) referenceFrame
                                  (chunks @ [deltaHeader (length (positions delta)) (length posBytes)
                                               (length compressedValues),
                                             posBytes, compressedValues])))))"

definition compressFrameSequence :: "Uint8Array list \<Rightarrow> nat \<Rightarrow> error + Uint8Array" where
  "compressFrameSequence frames keyframeInterval =
     (if length frames = 0 then Inr []
      else
        let header = replicate 8 0;
            header = setUint32 header 0 (length frames);
            header = setUint32 header 4 keyframeInterval
        in case compressLoop keyframeInterval frames 0 None [header] of Inl e \<Rightarrow> Inl e
           | Inr chunks \<Rightarrow> Inr (concat chunks))"

text \<open>
  \<^verbatim>\<open>new Uint32Array(posBytes.buffer, posBytes.byteOffset, numChanges)\<close> on the fresh
  copy \<open>posBytes\<close>: a \<^verbatim>\<open>RangeError\<close> when the buffer is shorter than
  \<open>4 * numChanges\<close> bytes, otherwise the first \<open>numChanges\<close> little-endian words.
\<close>

definition uint32View :: "Uint8Array \<Rightarrow> nat \<Rightarrow> error + 32 word list" where
  "uint32View posBytes numChanges =
     (if 4 * numChanges \<le> length posBytes
      then Inr (map (\<lambda>j. word_of_nat (unat (posBytes ! (4 * j)) + 256 * unat (posBytes ! (4 * j + 1))
                                       + 65536 * unat (posBytes ! (4 * j + 2))
                                       + 16777216 * unat (posBytes ! (4 * j + 3))))
                 [0..<numChanges])
      else Inl RangeError)"

text \<open>
  The unit loop of \<^verbatim>\<open>decompressFrameSequence\<close>: \<open>n\<close> units are still to be read. A
  tag that is neither \<^verbatim>\<open>0x4b\<close> nor \<^verbatim>\<open>0x44\<close> (or a read past the end) skips one byte.
  In a Delta unit the arguments of \<^verbatim>\<open>applyDelta\<close> are evaluated after the values have
  been decompressed; \<^verbatim>\<open>referenceFrame!.length\<close> on \<^verbatim>\<open>null\<close> throws a \<^verbatim>\<open>TypeError\<close>.
\<close>

fun decodeLoop ::
  "Uint8Array \<Rightarrow> nat \<Rightarrow> nat \<Rightarrow> Uint8Array option \<Rightarrow> Uint8Array list \<Rightarrow> error + Uint8Array list" where
  "decodeLoop data 0 offset referenceFrame frames = Inr frames"
| "decodeLoop data (Suc n) offset referenceFrame frames =
     (let ty = elemAt data offset;
          offset = offset + 1
      in if ty = Some 0x4b
         then (case getUint32 data offset of Inl e \<Rightarrow> Inl e
               | Inr compressedSize \<Rightarrow>
                   (let offset = offset + 4 + 4;
                        compressed = sliceArr data offset (offset + compressedSize);
                        offset = offset + compressedSize
                    in case decompress compressed of Inl e \<Rightarrow> Inl e
                       | Inr frame \<Rightarrow> decodeLoop data n offset (Some frame) (frames @ [frame])))
         else if ty = Some 0x44
         then (case getUint32 data offset of Inl e \<Rightarrow> Inl e
               | Inr numChanges \<Rightarrow>
               (case getUint32 data (offset + 4) of Inl e \<Rightarrow> Inl e
               | Inr posSize \<Rightarrow>
               (case getUint32 data (offset + 8) of Inl e \<Rightarrow> Inl e
               | Inr valSize \<Rightarrow>
                   (let offset = offset + 12;
                        posBytes = sliceArr data offset (offset + posSize);
                        offset = offset + posSize;
                        compressedValues = sliceArr data offset (offset + valSize);
                        offset = offset + valSize
                    in case uint32View posBytes numChanges of Inl e \<Rightarrow> Inl e
                       | Inr ps \<Rightarrow>
                       (case decompress compressedValues of Inl e \<Rightarrow> Inl e
                       | Inr vs \<Rightarrow>
                       (case referenceFrame of None \<Rightarrow> Inl TypeError
                       | Some reference \<Rightarrow>
                           decodeLoop data n offset referenceFrame
                             (frames @ [applyDelta reference \<lparr>positions = ps, vals = vs\<rparr>
                                          (length reference)])))))))
         else decodeLoop data n offset referenceFrame frames)"

definition decompressFrameSequence :: "Uint8Array \<Rightarrow> error + Uint8Array list" where
  "decompressFrameSequence data =
     (if length data = 0 then Inr []
      else (case getUint32 data 0 of Inl e \<Rightarrow> Inl e
            | Inr frameCount \<Rightarrow> decodeLoop data frameCount (0 + 4 + 4) None []))"

section \<open>Containers and streams that the claims speak about\<close>

text \<open>
  The symbol table and the run records that \<^verbatim>\<open>compress\<close> computes for a buffer
  (lines 31-44 and 127-141).
\<close>

definition symbolTable :: "Uint8Array \<Rightarrow> byte list" where
  "symbolTable data = sort_key byteToWavelength (mapKeys (buildHistogram data []))"

definition runRecords :: "Uint8Array \<Rightarrow> (nat \<times> nat) list" where
  "runRecords data =
     (let byteToIndex = buildIndex (symbolTable data) 0 []
      in rleLoop byteToIndex (drop 1 data)
           (case data of [] \<Rightarrow> 0 | d # _ \<Rightarrow> getIdx byteToIndex d) 1 [])"

text \<open>
  One run record on the wire: the symbol index in one byte when the run width is 1, in two
  bytes otherwise, then the 2-byte run length.
\<close>

definition encRun :: "nat \<Rightarrow> nat \<times> nat \<Rightarrow> Uint8Array" where
  "encRun runBytesPerIndex r =
     (if runBytesPerIndex = 1 then [word_of_nat (fst r)] else u16le (fst r)) @ u16le (snd r)"

text \<open>
  A modern (format version 2) mode-1 container with the given original length, symbol table
  and run records, in the layout \<^verbatim>\<open>encodeMode1\<close> writes and \<^verbatim>\<open>decompressMode1\<close>
  reads: the index width is derived from the table length.
\<close>

definition modernContainer :: "nat \<Rightarrow> byte list \<Rightarrow> (nat \<times> nat) list \<Rightarrow> Uint8Array" where
  "modernContainer originalSize table runs =
     MAGIC @ [2, 1] @ u32le originalSize @ u16le (length table) @ table
       @ u32le (length runs) @ concat (map (encRun (ceilDiv8 (bitsFor (length table)))) runs)"

text \<open>
  A legacy (format version 1) container, in the layout \<^verbatim>\<open>decompressV1\<close> reads (the
  repository has no encoder for it): magic, version 1, original length, unique count, the
  stored index width, then per symbol its value and a 4-byte frequency \<open>freq i\<close>, then
  the run count and the run records.
\<close>

definition legacyContainer ::
  "nat \<Rightarrow> nat \<Rightarrow> byte list \<Rightarrow> (nat \<Rightarrow> nat) \<Rightarrow> (nat \<times> nat) list \<Rightarrow> Uint8Array" where
  "legacyContainer originalSize indexWidth table freq runs =
     MAGIC @ [1] @ u32le originalSize @ u16le (length table) @ [word_of_nat indexWidth]
       @ concat (map (\<lambda>i. table ! i # u32le (freq i)) [0..<length table])
       @ u32le (length runs) @ concat (map (encRun (ceilDiv8 indexWidth)) runs)"

text \<open>What the run records stand for: each run is its symbol repeated.\<close>

definition expandRuns :: "byte list \<Rightarrow> (nat \<times> nat) list \<Rightarrow> Uint8Array" where
  "expandRuns table runs =
     concat (map (\<lambda>r. replicate (snd r) (if fst r < length table then table ! fst r else 0)) runs)"

text \<open>
  A Delta unit comes before any Key unit: reading tags the way \<^verbatim>\<open>decompressFrameSequence\<close>
  does while no unit has been decoded (an unknown tag skips one byte), the first tag that is
  \<^verbatim>\<open>0x44\<close> or \<^verbatim>\<open>0x4b\<close> among the \<open>n\<close> units announced is \<^verbatim>\<open>0x44\<close>.
\<close>

fun deltaBeforeKey :: "Uint8Array \<Rightarrow> nat \<Rightarrow> nat \<Rightarrow> bool" where
  "deltaBeforeKey data 0 offset = False"
| "deltaBeforeKey data (Suc n) offset =
     (if elemAt data offset = Some 0x44 then True
      else if elemAt data offset = Some 0x4b then False
      else deltaBeforeKey data n (offset + 1))"

definition startsWithDelta :: "Uint8Array \<Rightarrow> bool" where
  "startsWithDelta data =
     (case getUint32 data 0 of Inl e \<Rightarrow> False | Inr frameCount \<Rightarrow> deltaBeforeKey data frameCount 8)"

text \<open>
  \<^verbatim>\<open>decompressFrameSequence(compressFrameSequence(frames, keyframeInterval))\<close>, an error
  of either call being the error of the whole.
\<close>

definition roundTripFrames :: "Uint8Array list \<Rightarrow> nat \<Rightarrow> error + Uint8Array list" where
  "roundTripFrames frames keyframeInterval =
     (case compressFrameSequence frames keyframeInterval of Inl e \<Rightarrow> Inl e
      | Inr c \<Rightarrow> decompressFrameSequence c)"

text \<open>
  What the decoder rebuilds from the units the encoder emits for the frames from number
  \<open>i\<close> on: a frame sent as a Key unit comes back as it is, a frame sent as a Delta unit
  comes back as its delta applied to the reference frame, at the length of the reference
  frame. (Without a reference frame the encoder emits no Delta unit; that case is empty.)
\<close>

fun reconstruct ::
  "nat \<Rightarrow> Uint8Array list \<Rightarrow> nat \<Rightarrow> Uint8Array option \<Rightarrow> Uint8Array list" where
  "reconstruct keyframeInterval [] i referenceFrame = []"
| "reconstruct keyframeInterval (frame # frames) i referenceFrame =
     (if keyframeInterval \<noteq> 0 \<and> i mod keyframeInterval = 0
      then frame # reconstruct keyframeInterval frames (Suc i) (Some frame)
      else (case referenceFrame of None \<Rightarrow> []
            | Some reference \<Rightarrow>
                if 2 * length (positions (computeDelta reference frame)) > length frame
                then frame # reconstruct keyframeInterval frames (Suc i) (Some frame)
                else applyDelta reference (computeDelta reference frame) (length reference)
                       # reconstruct keyframeInterval frames (Suc i) referenceFrame))"

text \<open>
  A buffer of \<open>n\<close> bytes that starts with (the first \<open>n\<close> bytes of) \<open>xs\<close> and is
  zero from there on: the state of a zero-filled output array after \<open>xs\<close> has been
  written from its start.
\<close>

definition padTo :: "nat \<Rightarrow> Uint8Array \<Rightarrow> Uint8Array" where
  "padTo n xs = take n xs @ replicate (n - length xs) 0"

text \<open>Bit \<open>k\<close> of a byte array, counting from the low bit of byte 0.\<close>

definition bitAt :: "Uint8Array \<Rightarrow> nat \<Rightarrow> bool" where
  "bitAt bs k = (k div 8 < length bs \<and> bit (bs ! (k div 8)) (k mod 8))"

section \<open>Byte-array and field lemmas\<close>

lemma length_setBytes: "length (setBytes out off bs) = length out"
  by (induction bs arbitrary: out off) auto

lemma setBytes_append:
  "length bs \<le> length zs \<Longrightarrow> setBytes (pre @ zs) (length pre) bs = pre @ bs @ drop (length bs) zs"
proof (induction bs arbitrary: pre zs)
  case Nil
  then show ?case by simp
next
  case (Cons b bs)
  then obtain z zs' where zs: "zs = z # zs'" by (cases zs) auto
  have "setBytes ((pre @ [b]) @ zs') (length (pre @ [b])) bs = (pre @ [b]) @ bs @ drop (length bs) zs'"
    using Cons.prems zs by (intro Cons.IH) simp
  then show ?case using zs by simp
qed

lemma setBytes_replicate:
  "length bs \<le> n \<Longrightarrow>
   setBytes (pre @ replicate n 0) (length pre) bs = pre @ bs @ replicate (n - length bs) 0"
  by (simp add: setBytes_append)

lemma unat_byte_of_nat: "unat (word_of_nat n :: byte) = n mod 256"
  by (simp add: unat_of_nat)

lemma le16_sum: 
  "n mod 256 + 256 * (n div 256 mod 256) = n mod 65536" for n :: nat
  using mod_mult2_eq [of n 256 256] by simp

lemma le32_sum:
  "n mod 256 + 256 * (n div 256 mod 256) + 65536 * (n div 65536 mod 256)
     + 16777216 * (n div 16777216 mod 256) = n mod 4294967296" for n :: nat
proof -
  have d1: "n div 256 div 256 = n div 65536"
    by (simp add: div_mult2_eq [symmetric])
  have d2: "n div 65536 div 256 = n div 16777216"
    by (simp add: div_mult2_eq [symmetric])
  have a: "n mod 4294967296 = 256 * (n div 256 mod 16777216) + n mod 256"
    using mod_mult2_eq [of n 256 16777216] by simp
  have b: "n div 256 mod 16777216 = 256 * (n div 65536 mod 65536) + n div 256 mod 256"
    using mod_mult2_eq [of "n div 256" 256 65536] d1 by simp
  have c: "n div 65536 mod 65536 = 256 * (n div 16777216 mod 256) + n div 65536 mod 256"
    using mod_mult2_eq [of "n div 65536" 256 256] d2 by simp
  show ?thesis
    by (simp add: a b c)
qed

lemma getUint16_u16le_mod:
  "getUint16 (pre @ u16le n @ post) (length pre) = Inr (n mod 65536)"
  by (simp add: getUint16_def u16le_def nth_append unat_byte_of_nat le16_sum)

lemma getUint32_u32le_mod:
  "getUint32 (pre @ u32le n @ post) (length pre) = Inr (n mod 4294967296)"
  using le32_sum [of n]
  by (simp add: getUint32_def u32le_def nth_append unat_byte_of_nat)

lemma length_u16le [simp]: "length (u16le n) = 2"
  by (simp add: u16le_def)

lemma length_u32le [simp]: "length (u32le n) = 4"
  by (simp add: u32le_def)

section \<open>The symbol table, the index map and the index width\<close>

lemma map_of_mapSet: "map_of (mapSet k v m) = (map_of m)(k \<mapsto> v)"
  by (induction m) (auto simp: fun_eq_iff)

lemma set_keys_mapSet: "fst ` set (mapSet k v m) = insert k (fst ` set m)"
  by (simp add: dom_map_of_conv_image_fst [symmetric] map_of_mapSet)

lemma distinct_keys_mapSet: "distinct (map fst m) \<Longrightarrow> distinct (map fst (mapSet k v m))"
  by (induction m) (auto simp: set_keys_mapSet)

lemma set_keys_buildHistogram:
  "set (mapKeys (buildHistogram ds h)) = set ds \<union> set (mapKeys h)"
  by (induction ds arbitrary: h) (simp_all add: mapKeys_def set_keys_mapSet)

lemma distinct_keys_buildHistogram:
  "distinct (mapKeys h) \<Longrightarrow> distinct (mapKeys (buildHistogram ds h))"
  by (induction ds arbitrary: h) (simp_all add: mapKeys_def distinct_keys_mapSet)

lemma mapKeys_Nil: "mapKeys [] = []"
  by (simp add: mapKeys_def)

lemma set_symbolTable: "set (symbolTable data) = set data"
  by (simp add: symbolTable_def set_keys_buildHistogram mapKeys_Nil)

lemma distinct_symbolTable: "distinct (symbolTable data)"
  using distinct_keys_buildHistogram [of "[]" data]
  by (simp add: symbolTable_def mapKeys_Nil)

lemma distinct_bytes_length:
  fixes xs :: "byte list"
  assumes "distinct xs"
  shows "length xs \<le> 256"
proof -
  have "card (set xs) \<le> card (UNIV :: byte set)"
    by (rule card_mono) auto
  then show ?thesis
    using assms by (simp add: distinct_card card_word)
qed

lemma length_symbolTable: "length (symbolTable data) \<le> 256"
  by (rule distinct_bytes_length [OF distinct_symbolTable])

lemma symbolTable_nonempty: "data \<noteq> [] \<Longrightarrow> symbolTable data \<noteq> []"
  using set_symbolTable [of data] by auto

lemma map_of_buildIndex_other:
  "b \<notin> set bs \<Longrightarrow> map_of (buildIndex bs i m) b = map_of m b"
  by (induction bs arbitrary: i m) (auto simp: map_of_mapSet)

lemma map_of_buildIndex:
  "distinct bs \<Longrightarrow> j < length bs \<Longrightarrow> map_of (buildIndex bs i m) (bs ! j) = Some (i + j)"
proof (induction bs arbitrary: i m j)
  case Nil
  then show ?case by simp
next
  case (Cons b bs)
  show ?case
  proof (cases j)
    case 0
    then show ?thesis
      using Cons.prems by (simp add: map_of_buildIndex_other map_of_mapSet)
  next
    case (Suc j')
    then show ?thesis
      using Cons.prems Cons.IH [of j' "Suc i" "mapSet b i m"] by simp
  qed
qed

lemma getIdx_buildIndex:
  "distinct bs \<Longrightarrow> j < length bs \<Longrightarrow> getIdx (buildIndex bs 0 []) (bs ! j) = j"
  by (simp add: getIdx_def mapGet_def map_of_buildIndex)

lemma getIdx_buildIndex_mem:
  assumes "distinct bs" "b \<in> set bs"
  shows "getIdx (buildIndex bs 0 []) b < length bs \<and> bs ! getIdx (buildIndex bs 0 []) b = b"
proof -
  obtain j where "j < length bs" "bs ! j = b"
    using assms(2) by (auto simp: in_set_conv_nth)
  then show ?thesis
    using getIdx_buildIndex [OF assms(1), of j] by auto
qed

lemma ceilLog2_bound: "0 < n \<Longrightarrow> n \<le> 2 ^ ceilLog2 n"
proof (induction n rule: ceilLog2.induct)
  case (1 n)
  show ?case
  proof (cases "n \<le> 1")
    case True
    then show ?thesis by (simp add: ceilLog2.simps)
  next
    case False
    then have "(n + 1) div 2 \<le> 2 ^ ceilLog2 ((n + 1) div 2)"
      using "1.IH" by simp
    then show ?thesis
      using False by (subst ceilLog2.simps) simp
  qed
qed

lemma ceilLog2_least: "n \<le> 2 ^ k \<Longrightarrow> ceilLog2 n \<le> k"
proof (induction n arbitrary: k rule: ceilLog2.induct)
  case (1 n)
  show ?case
  proof (cases "n \<le> 1")
    case True
    then show ?thesis by (simp add: ceilLog2.simps)
  next
    case False
    then obtain k' where k: "k = Suc k'"
      using "1.prems" by (cases k) auto
    have "(n + 1) div 2 \<le> 2 ^ k'"
      using "1.prems" k by simp
    then have "ceilLog2 ((n + 1) div 2) \<le> k'"
      using "1.IH" False by simp
    then show ?thesis
      using False k by (subst ceilLog2.simps) simp
  qed
qed

lemma bitsFor_pos: "1 \<le> bitsFor n"
  by (simp add: bitsFor_def)

lemma bitsFor_bound: "n \<le> 2 ^ bitsFor n"
proof (cases "n = 0")
  case True
  then show ?thesis by simp
next
  case False
  then have "n \<le> 2 ^ ceilLog2 n"
    by (simp add: ceilLog2_bound)
  also have "\<dots> \<le> 2 ^ bitsFor n"
    using False by (simp add: bitsFor_def)
  finally show ?thesis .
qed

lemma bitsFor_le8: "n \<le> 256 \<Longrightarrow> bitsFor n \<le> 8"
  using ceilLog2_least [of n 8] ceilLog2_least [of 1 8]
  by (simp add: bitsFor_def)

lemma runBytes_small: "n \<le> 256 \<Longrightarrow> ceilDiv8 (bitsFor n) = 1"
  using bitsFor_le8 [of n] bitsFor_pos [of n]
  by (simp add: ceilDiv8_def)

section \<open>Bits of the packed index stream\<close>

lemma nat_bit_bounded: "idx < 2 ^ b \<Longrightarrow> bit idx m \<Longrightarrow> m < b" for idx :: nat
proof (rule ccontr)
  assume a: "idx < 2 ^ b" "bit idx m" "\<not> m < b"
  then have "(2::nat) ^ b \<le> 2 ^ m" by simp
  then have "idx < 2 ^ m" using a(1) by linarith
  then show False using a(2) by (simp add: bit_iff_odd)
qed

lemma bit_and_255: "bit (x AND (255::nat)) j \<longleftrightarrow> j < 8 \<and> bit x j"
proof -
  have "x AND 255 = take_bit 8 x" by (simp add: take_bit_eq_mask mask_eq_exp_minus_1)
  then show ?thesis by (simp add: bit_take_bit_iff)
qed

lemma bit_byte_or_of_nat:
  "bit ((w :: byte) OR word_of_nat v) j \<longleftrightarrow> bit w j \<or> (j < 8 \<and> bit v j)"
  by (auto simp: bit_simps)

lemma length_orAt [simp]: "length (orAt out i v) = length out"
  by (simp add: orAt_def)

lemma bitAt_orAt:
  "bitAt (orAt out i v) k \<longleftrightarrow>
     bitAt out k \<or> (k div 8 = i \<and> i < length out \<and> bit v (k mod 8))"
  by (cases "i < length out"; cases "k div 8 = i")
    (auto simp: bitAt_def orAt_def bit_byte_or_of_nat)

lemma length_packStep [simp]: "length (packStep bits ps idx p out) = length out"
  by (simp add: packStep_def Let_def)

lemma packStep_shift: "packStep bits ps idx p out = packStep bits 0 idx (8 * ps + p) out"
  by (simp add: packStep_def)

lemma unpackIdx_shift: "unpackIdx c ps bits p = unpackIdx c 0 bits (8 * ps + p)"
  by (simp add: unpackIdx_def)

section \<open>Writing one index\<close>

lemma bitAt_packStep:
  assumes bits: "0 < bits" "bits \<le> 8"
    and idx: "idx < 2 ^ bits"
    and room: "q + bits \<le> 8 * length out"
  shows "bitAt (packStep bits 0 idx q out) k \<longleftrightarrow> bitAt out k \<or> (q \<le> k \<and> bit idx (k - q))"
proof -
  define bo off where "bo = q div 8" and "off = q mod 8"
  define kb kj where "kb = k div 8" and "kj = k mod 8"
  have q: "q = 8 * bo + off" and off: "off < 8"
    by (simp_all add: bo_def off_def)
  have k: "k = 8 * kb + kj" and kj: "kj < 8"
    by (simp_all add: kb_def kj_def)
  have bo_lt: "bo < length out"
    using room bits q by linarith
  have bo1_lt: "bo + 1 < length out" if "off + bits > 8"
    using room that q by linarith
  have hi: "m < bits" if "bit idx m" for m
    using nat_bit_bounded [OF idx that] .
  have step: "packStep bits 0 idx q out =
      (if off + bits > 8
       then orAt (orAt out bo (push_bit off idx AND 255)) (bo + 1) (drop_bit (8 - off) idx AND 255)
       else orAt out bo (push_bit off idx AND 255))"
    using bits off by (simp add: packStep_def Let_def bo_def off_def)
  have lhs: "bitAt (packStep bits 0 idx q out) k \<longleftrightarrow>
      bitAt out k \<or> (kb = bo \<and> off \<le> kj \<and> bit idx (kj - off))
        \<or> (off + bits > 8 \<and> kb = bo + 1 \<and> bit idx (8 - off + kj))"
    using bo_lt bo1_lt kj
    by (auto simp: step bitAt_orAt bit_and_255 bit_push_bit_iff_nat bit_drop_bit_eq
        kb_def [symmetric] kj_def [symmetric])
  consider (lt) "kb < bo" | (eq) "kb = bo" | (adj) "kb = bo + 1" | (far) "kb > bo + 1"
    by linarith
  then have rhs: "(q \<le> k \<and> bit idx (k - q)) \<longleftrightarrow>
      (kb = bo \<and> off \<le> kj \<and> bit idx (kj - off))
        \<or> (off + bits > 8 \<and> kb = bo + 1 \<and> bit idx (8 - off + kj))"
  proof cases
    case lt
    then have "k < q" using q k off kj by linarith
    then show ?thesis using lt by simp
  next
    case eq
    then have "q \<le> k \<longleftrightarrow> off \<le> kj" "k - q = kj - off"
      using q k by simp_all
    then show ?thesis using eq by simp
  next
    case adj
    then have a: "q \<le> k" "k - q = 8 - off + kj"
      using q k off by simp_all
    have "off + bits > 8" if "bit idx (8 - off + kj)"
      using hi [OF that] off by linarith
    then show ?thesis using adj a by auto
  next
    case far
    then have "k - q \<ge> bits"
      using q k off kj bits by linarith
    then have "\<not> bit idx (k - q)"
      using hi [of "k - q"] by auto
    then show ?thesis using far by simp
  qed
  show ?thesis
    unfolding lhs rhs by blast
qed

section \<open>Reading one index\<close>

lemma and_index_mask: "x AND (2 ^ b - Suc 0) = take_bit b x" for x :: nat
  by (simp add: take_bit_eq_mask mask_eq_exp_minus_1)

lemma atNum_in_range: "i < length c \<Longrightarrow> atNum c i = unat (c ! i)"
  by (simp add: atNum_def elemAt_def)

lemma bit_unat_byte: "bit (unat (w :: byte)) m \<longleftrightarrow> m < 8 \<and> bit w m"
  by (auto simp: bit_simps dest: bit_imp_le_length)

lemma div8_split: "r < 8 \<Longrightarrow> (8 * b + r) div 8 = b" for b r :: nat
  by simp

lemma mod8_split: "r < 8 \<Longrightarrow> (8 * b + r) mod 8 = r" for b r :: nat
  by simp

lemma bit_unpackIdx:
  assumes bits: "0 < bits" "bits \<le> 8"
    and room: "q + bits \<le> 8 * length c"
  shows "bit (unpackIdx c 0 bits q) j \<longleftrightarrow> j < bits \<and> bitAt c (q + j)"
proof -
  define bo off where "bo = q div 8" and "off = q mod 8"
  have q: "q = 8 * bo + off" and off: "off < 8"
    by (simp_all add: bo_def off_def)
  have bo_lt: "bo < length c"
    using room bits q by linarith
  have bo1_lt: "bo + 1 < length c" if "off + bits > 8"
    using room that q by linarith
  have rd: "unpackIdx c 0 bits q =
      (if off + bits > 8
       then take_bit bits (take_bit bits (drop_bit off (unat (c ! bo)))
                           OR take_bit bits (push_bit (8 - off) (unat (c ! (bo + 1)))))
       else take_bit bits (drop_bit off (unat (c ! bo))))"
    using bits off bo_lt bo1_lt
    by (simp add: unpackIdx_def Let_def bo_def [symmetric] off_def [symmetric]
        and_index_mask atNum_in_range)
  have lhs: "bit (unpackIdx c 0 bits q) j \<longleftrightarrow>
      j < bits \<and> ((off + j < 8 \<and> bit (c ! bo) (off + j))
                 \<or> (off + bits > 8 \<and> 8 - off \<le> j \<and> bit (c ! (bo + 1)) (j - (8 - off))))"
    using bits off
    by (auto simp: rd bit_take_bit_iff bit_or_iff bit_drop_bit_eq bit_push_bit_iff_nat
        bit_unat_byte)
  show ?thesis
  proof (cases "j < bits")
    case False
    then show ?thesis by (simp add: lhs)
  next
    case jb: True
    show ?thesis
    proof (cases "off + j < 8")
      case True
      have e: "q + j = 8 * bo + (off + j)"
        using q by simp
      have "(q + j) div 8 = bo" "(q + j) mod 8 = off + j"
        unfolding e by (rule div8_split [OF True], rule mod8_split [OF True])
      then show ?thesis
        using True jb bo_lt by (auto simp: lhs bitAt_def)
    next
      case False
      have r: "j - (8 - off) < 8"
        using jb bits by linarith
      have e: "q + j = 8 * (bo + 1) + (j - (8 - off))"
        using q False off by arith
      have d: "(q + j) div 8 = bo + 1" "(q + j) mod 8 = j - (8 - off)"
        unfolding e by (rule div8_split [OF r], rule mod8_split [OF r])
      have "off + bits > 8" using False jb by linarith
      then show ?thesis
        using False jb bo1_lt d by (auto simp: lhs bitAt_def)
    qed
  qed
qed

section \<open>The packing loop\<close>

lemma length_packLoop [simp]: "length (packLoop b2i bits ps ds p out) = length out"
  by (induction ds arbitrary: p out) simp_all

lemma bitAt_packLoop:
  assumes bits: "0 < bits" "bits \<le> 8"
    and idx: "\<forall>d \<in> set ds. getIdx b2i d < 2 ^ bits"
    and room: "8 * ps + p + length ds * bits \<le> 8 * length out"
  shows "bitAt (packLoop b2i bits ps ds p out) k \<longleftrightarrow>
           bitAt out k
           \<or> (\<exists>i < length ds. 8 * ps + p + i * bits \<le> k
                  \<and> bit (getIdx b2i (ds ! i)) (k - (8 * ps + p + i * bits)))"
  using idx room
proof (induction ds arbitrary: p out)
  case Nil
  then show ?case by simp
next
  case (Cons d ds)
  let ?out = "packStep bits ps (getIdx b2i d) p out"
  have st: "bitAt ?out k \<longleftrightarrow>
      bitAt out k \<or> (8 * ps + p \<le> k \<and> bit (getIdx b2i d) (k - (8 * ps + p)))"
    using Cons.prems bits
    by (subst packStep_shift) (intro bitAt_packStep, simp_all)
  have ih: "bitAt (packLoop b2i bits ps ds (p + bits) ?out) k \<longleftrightarrow>
      bitAt ?out k
      \<or> (\<exists>i < length ds. 8 * ps + (p + bits) + i * bits \<le> k
             \<and> bit (getIdx b2i (ds ! i)) (k - (8 * ps + (p + bits) + i * bits)))"
    using Cons.prems by (intro Cons.IH) simp_all
  show ?case
    by (simp add: ih st Ex_less_Suc2 add.assoc add.left_commute [of bits])
qed

lemma bitAt_zeros: "length hdr = ps \<Longrightarrow> 8 * ps \<le> k \<Longrightarrow> \<not> bitAt (hdr @ replicate m 0) k"
  by (auto simp: bitAt_def nth_append)

lemma slot_unique:
  fixes bits :: nat
  assumes "j < bits" "i' * bits \<le> i * bits + j" "i * bits + j - i' * bits < bits"
  shows "i' = i"
proof (rule ccontr)
  assume ne: "i' \<noteq> i"
  show False
  proof (cases "i' < i")
    case True
    then have "Suc i' * bits \<le> i * bits"
      by (intro mult_le_mono1) simp
    then show False using assms(3) by simp
  next
    case False
    then have "Suc i * bits \<le> i' * bits"
      using ne by (intro mult_le_mono1) simp
    then show False using assms(1,2) by simp
  qed
qed

lemma unpackLoop_map:
  "unpackLoop c ps bits ub n p =
     map (\<lambda>i. symbolAt ub (unpackIdx c ps bits (p + i * bits))) [0..<n]"
proof (induction n arbitrary: p)
  case 0
  then show ?case by simp
next
  case (Suc n)
  show ?case
    by (simp only: unpackLoop.simps Suc.IH map_upt_Suc) (simp add: add.assoc)
qed

section \<open>Unpacking what was packed\<close>

lemma unpack_pack_idx:
  assumes bits: "0 < bits" "bits \<le> 8"
    and idx: "\<forall>d \<in> set ds. getIdx b2i d < 2 ^ bits"
    and hdr: "length hdr = ps"
    and m: "length ds * bits \<le> 8 * m"
    and i: "i < length ds"
  shows "unpackIdx (packLoop b2i bits ps ds 0 (hdr @ replicate m 0)) ps bits (i * bits)
         = getIdx b2i (ds ! i)"
proof -
  let ?c = "packLoop b2i bits ps ds 0 (hdr @ replicate m 0)"
  have len: "length ?c = ps + m"
    using hdr by simp
  have "Suc i * bits \<le> length ds * bits"
    using i by (intro mult_le_mono1) simp
  then have room: "8 * ps + i * bits + bits \<le> 8 * length ?c"
    using m len by simp
  have small: "getIdx b2i (ds ! i) < 2 ^ bits"
    using idx i by simp
  have "bit (unpackIdx ?c 0 bits (8 * ps + i * bits)) j \<longleftrightarrow> bit (getIdx b2i (ds ! i)) j" for j
  proof (cases "j < bits")
    case False
    then have "\<not> bit (getIdx b2i (ds ! i)) j"
      using nat_bit_bounded [OF small] by blast
    then show ?thesis
      using False by (simp add: bit_unpackIdx [OF bits room])
  next
    case True
    have "bitAt ?c (8 * ps + i * bits + j) \<longleftrightarrow>
        (\<exists>i' < length ds. 8 * ps + i' * bits \<le> 8 * ps + i * bits + j
            \<and> bit (getIdx b2i (ds ! i')) (8 * ps + i * bits + j - (8 * ps + i' * bits)))"
      using bitAt_packLoop [OF bits idx, of ps 0 "hdr @ replicate m 0" "8 * ps + i * bits + j"]
        bitAt_zeros [OF hdr, of "8 * ps + i * bits + j" m] hdr m
      by simp
    also have "\<dots> \<longleftrightarrow> bit (getIdx b2i (ds ! i)) j"
    proof
      assume "\<exists>i' < length ds. 8 * ps + i' * bits \<le> 8 * ps + i * bits + j
            \<and> bit (getIdx b2i (ds ! i')) (8 * ps + i * bits + j - (8 * ps + i' * bits))"
      then obtain i' where i': "i' < length ds" "i' * bits \<le> i * bits + j"
        "bit (getIdx b2i (ds ! i')) (i * bits + j - i' * bits)"
        by auto
      have "getIdx b2i (ds ! i') < 2 ^ bits"
        using idx i'(1) by simp
      then have "i * bits + j - i' * bits < bits"
        using nat_bit_bounded i'(3) by blast
      then have "i' = i"
        using slot_unique [OF True i'(2)] by simp
      then show "bit (getIdx b2i (ds ! i)) j"
        using i'(3) by simp
    next
      assume "bit (getIdx b2i (ds ! i)) j"
      then show "\<exists>i' < length ds. 8 * ps + i' * bits \<le> 8 * ps + i * bits + j
            \<and> bit (getIdx b2i (ds ! i')) (8 * ps + i * bits + j - (8 * ps + i' * bits))"
        using i by (intro exI [of _ i]) simp
    qed
    finally show ?thesis
      using True by (simp add: bit_unpackIdx [OF bits room])
  qed
  then have "unpackIdx ?c 0 bits (8 * ps + i * bits) = getIdx b2i (ds ! i)"
    by (simp add: bit_eq_iff)
  then show ?thesis
    by (subst unpackIdx_shift) simp
qed

lemma symbolAt_Some: "i < length ub \<Longrightarrow> symbolAt (map Some ub) i = ub ! i"
  by (simp add: symbolAt_def toUint8_def)

lemma unpack_pack:
  assumes ub: "distinct ub" "set ds \<subseteq> set ub" "length ub \<le> 256"
    and hdr: "length hdr = ps"
    and m: "length ds * bitsFor (length ub) \<le> 8 * m"
  shows "unpackLoop (packLoop (buildIndex ub 0 []) (bitsFor (length ub)) ps ds 0
                      (hdr @ replicate m 0))
           ps (bitsFor (length ub)) (map Some ub) (length ds) 0 = ds"
proof -
  let ?b2i = "buildIndex ub 0 []"
  let ?bits = "bitsFor (length ub)"
  have bits: "0 < ?bits" "?bits \<le> 8"
    using bitsFor_pos [of "length ub"] bitsFor_le8 [OF ub(3)] by simp_all
  have sym: "getIdx ?b2i d < length ub \<and> ub ! getIdx ?b2i d = d" if "d \<in> set ds" for d
    using getIdx_buildIndex_mem [OF ub(1), of d] that ub(2) by auto
  have idx: "\<forall>d \<in> set ds. getIdx ?b2i d < 2 ^ ?bits"
    using sym bitsFor_bound [of "length ub"] by (meson less_le_trans)
  show ?thesis
  proof (rule nth_equalityI)
    show "length (unpackLoop (packLoop ?b2i ?bits ps ds 0 (hdr @ replicate m 0)) ps ?bits
                   (map Some ub) (length ds) 0) = length ds"
      by (simp add: unpackLoop_map)
  next
    fix i
    assume "i < length (unpackLoop (packLoop ?b2i ?bits ps ds 0 (hdr @ replicate m 0)) ps ?bits
                   (map Some ub) (length ds) 0)"
    then have i: "i < length ds"
      by (simp add: unpackLoop_map)
    then have "ds ! i \<in> set ds" by simp
    then show "unpackLoop (packLoop ?b2i ?bits ps ds 0 (hdr @ replicate m 0)) ps ?bits
                   (map Some ub) (length ds) 0 ! i = ds ! i"
      using i sym [of "ds ! i"]
      by (simp add: unpackLoop_map unpack_pack_idx [OF bits idx hdr m i] symbolAt_Some)
  qed
qed

section \<open>Run expansion\<close>

lemma length_padTo [simp]: "length (padTo n xs) = n"
  by (simp add: padTo_def)

lemma padTo_Nil: "padTo n [] = replicate n 0"
  by (simp add: padTo_def)

lemma padTo_exact: "length xs = n \<Longrightarrow> padTo n xs = xs"
  by (simp add: padTo_def)

lemma padTo_full: "n \<le> length xs \<Longrightarrow> padTo n (xs @ ys) = padTo n xs"
  by (simp add: padTo_def)

lemma padTo_update:
  assumes "length acc < n"
  shows "(padTo n acc)[length acc := v] = padTo n (acc @ [v])"
proof -
  obtain k where k: "n - length acc = Suc k"
    using assms by (cases "n - length acc") auto
  then have "n - Suc (length acc) = k" by simp
  then show ?thesis
    using assms k by (simp add: padTo_def list_update_append)
qed

lemma fillRun_padded:
  "fillRun (padTo n acc) (min n (length acc)) v c n
     = (padTo n (acc @ replicate c v), min n (length acc + c))"
proof (induction c arbitrary: acc)
  case 0
  then show ?case by simp
next
  case (Suc c)
  show ?case
  proof (cases "length acc < n")
    case True
    have "fillRun (padTo n (acc @ [v])) (min n (length (acc @ [v]))) v c n
          = (padTo n ((acc @ [v]) @ replicate c v), min n (length (acc @ [v]) + c))"
      by (rule Suc.IH)
    moreover have "min n (length acc) = length acc" "min n (length (acc @ [v])) = Suc (length acc)"
      using True by simp_all
    ultimately show ?thesis
      using True padTo_update [OF True, of v] by (simp add: replicate_app_Cons_same)
  next
    case False
    then have "min n (length acc) = n" "min n (length acc + Suc c) = n"
      by simp_all
    then show ?thesis
      using False by (simp add: padTo_full)
  qed
qed

lemma length_encRun: "length (encRun rb r) = (if rb = 1 then 3 else 4)"
  by (simp add: encRun_def)

lemma getUint16_at:
  "off = length pre \<Longrightarrow> n < 65536 \<Longrightarrow> getUint16 (pre @ u16le n @ post) off = Inr n"
  by (simp add: getUint16_u16le_mod)

lemma getUint32_at:
  "off = length pre \<Longrightarrow> getUint32 (pre @ u32le n @ post) off = Inr (n mod 4294967296)"
  by (simp add: getUint32_u32le_mod)

lemma runLoop_step1:
  assumes "c < 65536" "i < 256"
  shows "runLoop (pre @ encRun 1 (i, c) @ post) ub 1 n (Suc k) (length pre)
           (padTo n acc) (min n (length acc))
         = runLoop ((pre @ encRun 1 (i, c)) @ post) ub 1 n k (length (pre @ encRun 1 (i, c)))
             (padTo n (acc @ replicate c (symbolAt ub i))) 
             (min n (length (acc @ replicate c (symbolAt ub i))))"
proof -
  have e: "elemAt (pre @ encRun 1 (i, c) @ post) (length pre) = Some (word_of_nat i)"
    by (simp add: encRun_def elemAt_def)
  have "getUint16 ((pre @ [word_of_nat i]) @ u16le c @ post) (length pre + 1) = Inr c"
    using assms by (intro getUint16_at) simp_all
  then have g: "getUint16 (pre @ encRun 1 (i, c) @ post) (length pre + 1) = Inr c"
    by (simp add: encRun_def)
  have u: "unat (word_of_nat i :: byte) = i"
    using assms by (simp add: unat_byte_of_nat)
  show ?thesis
    by (simp only: runLoop.simps e g fillRun_padded)
       (simp add: length_encRun u)
qed

lemma runLoop_step2:
  assumes "c < 65536" "i < 65536" "rb \<noteq> 1"
  shows "runLoop (pre @ encRun rb (i, c) @ post) ub rb n (Suc k) (length pre)
           (padTo n acc) (min n (length acc))
         = runLoop ((pre @ encRun rb (i, c)) @ post) ub rb n k (length (pre @ encRun rb (i, c)))
             (padTo n (acc @ replicate c (symbolAt ub i))) 
             (min n (length (acc @ replicate c (symbolAt ub i))))"
proof -
  have g1: "getUint16 (pre @ encRun rb (i, c) @ post) (length pre) = Inr i"
    using assms getUint16_at [of "length pre" pre i "u16le c @ post"]
    by (simp add: encRun_def)
  have "getUint16 ((pre @ u16le i) @ u16le c @ post) (length pre + 2) = Inr c"
    using assms by (intro getUint16_at) simp_all
  then have g2: "getUint16 (pre @ encRun rb (i, c) @ post) (length pre + 2) = Inr c"
    using assms by (simp add: encRun_def)
  show ?thesis
    using assms(3)
    by (simp only: runLoop.simps g1 g2 fillRun_padded)
       (simp add: length_encRun)
qed

lemma runLoop_records:
  assumes "\<forall>r \<in> set runs. snd r < 65536 \<and> fst r < (if rb = 1 then 256 else 65536)"
  shows "runLoop (pre @ concat (map (encRun rb) runs) @ post) ub rb n (length runs) (length pre)
           (padTo n acc) (min n (length acc))
         = Inr (padTo n (acc @ concat (map (\<lambda>r. replicate (snd r) (symbolAt ub (fst r))) runs)))"
  using assms
proof (induction runs arbitrary: pre acc)
  case Nil
  then show ?case by simp
next
  case (Cons r runs)
  obtain i c where r: "r = (i, c)" by (cases r)
  have c: "c < 65536" and i: "i < (if rb = 1 then 256 else 65536)"
    using Cons.prems r by auto
  let ?rest = "concat (map (encRun rb) runs) @ post"
  let ?acc = "acc @ replicate c (symbolAt ub i)"
  have ih: "runLoop ((pre @ encRun rb r) @ ?rest) ub rb n (length runs) (length (pre @ encRun rb r))
           (padTo n ?acc) (min n (length ?acc))
         = Inr (padTo n (?acc @ concat (map (\<lambda>r. replicate (snd r) (symbolAt ub (fst r))) runs)))"
    using Cons.prems by (intro Cons.IH) simp
  have st: "runLoop (pre @ encRun rb (i, c) @ ?rest) ub rb n (Suc (length runs)) (length pre)
           (padTo n acc) (min n (length acc))
         = runLoop ((pre @ encRun rb (i, c)) @ ?rest) ub rb n (length runs)
             (length (pre @ encRun rb (i, c))) (padTo n ?acc) (min n (length ?acc))"
  proof (cases "rb = 1")
    case True
    then show ?thesis
      using runLoop_step1 [OF c, of i pre ?rest ub n "length runs" acc] i by simp
  next
    case False
    then show ?thesis
      using runLoop_step2 [OF c _ False, of i pre ?rest ub n "length runs" acc] i by simp
  qed
  show ?case
    using ih st r by simp
qed

section \<open>Parsing the container header\<close>

lemma length_MAGIC [simp]: "length MAGIC = 4"
  by (simp add: MAGIC_def)

lemma symbolAt_table:
  "symbolAt (map Some table) i = (if i < length table then table ! i else 0)"
  by (simp add: symbolAt_def toUint8_def)

lemma expandRuns_symbolAt:
  "expandRuns table runs
     = concat (map (\<lambda>r. replicate (snd r) (symbolAt (map Some table) (fst r))) runs)"
  by (simp add: expandRuns_def symbolAt_table)

lemma readTable_here:
  "off = length pre \<Longrightarrow> readTable (pre @ table @ post) off (length table) = map Some table"
  by (auto simp: readTable_def elemAt_def nth_append intro!: nth_equalityI)

lemma runLoop_prefix:
  assumes ok: "\<forall>r \<in> set runs. snd r < 65536 \<and> fst r < (if rb = 1 then 256 else 65536)"
    and k: "k \<le> length runs"
    and off: "off = length pre"
  shows "runLoop (pre @ concat (map (encRun rb) runs)) (map Some table) rb n k off
           (replicate n 0) 0
         = Inr (padTo n (expandRuns table (take k runs)))"
proof -
  have split: "concat (map (encRun rb) runs)
      = concat (map (encRun rb) (take k runs)) @ concat (map (encRun rb) (drop k runs))"
    by (metis append_take_drop_id concat_append map_append)
  have ok': "\<forall>r \<in> set (take k runs). snd r < 65536 \<and> fst r < (if rb = 1 then 256 else 65536)"
    using ok by (meson in_set_takeD)
  have "runLoop (pre @ concat (map (encRun rb) (take k runs))
                   @ concat (map (encRun rb) (drop k runs)))
          (map Some table) rb n (length (take k runs)) (length pre)
          (padTo n []) (min n (length ([] :: byte list)))
        = Inr (padTo n ([] @ concat (map (\<lambda>r. replicate (snd r)
                                       (symbolAt (map Some table) (fst r))) (take k runs))))"
    by (rule runLoop_records [OF ok'])
  then show ?thesis
    using k off by (simp add: split padTo_Nil expandRuns_symbolAt)
qed

lemma decompress_v2_fields:
  assumes c: "c = MAGIC @ [2, m] @ u32le n @ rest"
  shows "decompress c =
     (if n mod 4294967296 = 0 then Inr []
      else if unat m = 255 then Inr (sliceArr c 10 (10 + n mod 4294967296))
      else (case getUint16 c 10 of Inl e \<Rightarrow> Inl e
            | Inr uniqueCount \<Rightarrow>
                if unat m = 0
                then Inr (decompressMode0 c (12 + uniqueCount) (n mod 4294967296)
                           (readTable c 12 uniqueCount))
                else if unat m = 1
                then decompressMode1 c (12 + uniqueCount) (n mod 4294967296)
                       (readTable c 12 uniqueCount)
                else Inl (UnknownMode (unat m))))"
proof -
  have len: "\<not> length c < 10"
    by (simp add: c)
  have magic: "c ! 0 = 0x50" "c ! 1 = 0x57" "c ! 2 = 0x44" "c ! 3 = 0x43"
    by (simp_all add: c MAGIC_def)
  have ver: "unat (c ! 4) = 2" and mode: "c ! 5 = m"
    by (simp_all add: c MAGIC_def)
  have "getUint32 ((MAGIC @ [2, m]) @ u32le n @ rest) 6 = Inr (n mod 4294967296)"
    by (intro getUint32_at) simp
  then have size: "getUint32 c 6 = Inr (n mod 4294967296)"
    by (simp add: c)
  show ?thesis
    unfolding decompress_def
    by (simp only: len magic ver mode size VERSION_def Let_def) simp
qed

section \<open>Decoding mode-1 containers\<close>

lemma decompress_mode1_fields:
  assumes c: "c = MAGIC @ [2, 1] @ u32le n @ u16le (length table) @ table @ u32le k @ rs"
    and N: "length table < 65536"
    and n: "n mod 4294967296 \<noteq> 0"
  shows "decompress c =
           runLoop c (map Some table) (ceilDiv8 (bitsFor (length table))) (n mod 4294967296)
             (k mod 4294967296) (12 + length table + 4) (replicate (n mod 4294967296) 0) 0"
proof -
  have "getUint16 ((MAGIC @ [2, 1] @ u32le n) @ u16le (length table) @ table @ u32le k @ rs) 10
          = Inr (length table)"
    using N by (intro getUint16_at) simp_all
  then have cnt: "getUint16 c 10 = Inr (length table)"
    by (simp add: c)
  have "readTable ((MAGIC @ [2, 1] @ u32le n @ u16le (length table)) @ table @ u32le k @ rs) 12
          (length table) = map Some table"
    by (intro readTable_here) simp
  then have tab: "readTable c 12 (length table) = map Some table"
    by (simp add: c)
  have "getUint32 ((MAGIC @ [2, 1] @ u32le n @ u16le (length table) @ table) @ u32le k @ rs)
          (12 + length table) = Inr (k mod 4294967296)"
    by (intro getUint32_at) simp
  then have runs: "getUint32 c (12 + length table) = Inr (k mod 4294967296)"
    by (simp add: c)
  show ?thesis
    using n
    by (simp add: decompress_v2_fields [OF c] cnt tab decompressMode1_def runs)
qed

lemma decompress_modernContainer:
  assumes N: "length table < 65536"
    and ok: "\<forall>r \<in> set runs. snd r < 65536
               \<and> fst r < (if ceilDiv8 (bitsFor (length table)) = 1 then 256 else 65536)"
  shows "decompress (modernContainer n table runs)
         = Inr (padTo (n mod 4294967296)
                  (expandRuns table (take (length runs mod 4294967296) runs)))"
proof (cases "n mod 4294967296 = 0")
  case True
  then show ?thesis
    using decompress_v2_fields [of "modernContainer n table runs" 1 n
        "u16le (length table) @ table @ u32le (length runs)
           @ concat (map (encRun (ceilDiv8 (bitsFor (length table)))) runs)"]
    by (simp add: modernContainer_def padTo_def)
next
  case False
  let ?rb = "ceilDiv8 (bitsFor (length table))"
  let ?pre = "MAGIC @ [2, 1] @ u32le n @ u16le (length table) @ table @ u32le (length runs)"
  have c: "modernContainer n table runs
      = MAGIC @ [2, 1] @ u32le n @ u16le (length table) @ table @ u32le (length runs)
          @ concat (map (encRun ?rb) runs)"
    by (simp add: modernContainer_def)
  have "runLoop (?pre @ concat (map (encRun ?rb) runs)) (map Some table) ?rb (n mod 4294967296)
          (length runs mod 4294967296) (12 + length table + 4) (replicate (n mod 4294967296) 0) 0
        = Inr (padTo (n mod 4294967296)
                 (expandRuns table (take (length runs mod 4294967296) runs)))"
    using ok by (intro runLoop_prefix) simp_all
  then show ?thesis
    by (simp only: decompress_mode1_fields [OF c N False]) (simp add: c)
qed

lemma nth_entries:
  assumes "\<And>i. length (f i) = 5" "i < N"
  shows "concat (map f [0..<N]) ! (5 * i) = f i ! 0 \<and> length (concat (map f [0..<N])) = 5 * N"
  using assms(2)
proof (induction N arbitrary: i)
  case 0
  then show ?case by simp
next
  case (Suc N)
  have len: "length (concat (map f [0..<N])) = 5 * N"
    using assms(1) by (induction N) simp_all
  show ?case
  proof (cases "i < N")
    case True
    then show ?thesis
      using Suc.IH [OF True] len assms(1) by (simp add: nth_append)
  next
    case False
    then have "i = N" using Suc.prems by simp
    then show ?thesis
      using len assms(1) by (simp add: nth_append)
  qed
qed

lemma length_entries:
  "length (concat (map (\<lambda>i. table ! i # u32le (freq i)) [0..<N])) = 5 * N"
  by (induction N) simp_all

lemma readTableV1_here:
  assumes "off = length pre"
  shows "readTableV1 (pre @ concat (map (\<lambda>i. table ! i # u32le (freq i)) [0..<length table]) @ post)
           off (length table) = map Some table"
proof (rule nth_equalityI)
  show "length (readTableV1 (pre @ concat (map (\<lambda>i. table ! i # u32le (freq i))
                  [0..<length table]) @ post) off (length table)) = length (map Some table)"
    by (simp add: readTableV1_def)
next
  fix i
  assume "i < length (readTableV1 (pre @ concat (map (\<lambda>i. table ! i # u32le (freq i))
                  [0..<length table]) @ post) off (length table))"
  then have i: "i < length table"
    by (simp add: readTableV1_def)
  have "concat (map (\<lambda>i. table ! i # u32le (freq i)) [0..<length table]) ! (5 * i)
          = (table ! i # u32le (freq i)) ! 0"
    using nth_entries [of "\<lambda>i. table ! i # u32le (freq i)" i "length table"] i by simp
  then show "readTableV1 (pre @ concat (map (\<lambda>i. table ! i # u32le (freq i))
                  [0..<length table]) @ post) off (length table) ! i = map Some table ! i"
    using i assms
    by (simp add: readTableV1_def elemAt_def nth_append length_entries)
qed

section \<open>Decoding legacy containers\<close>

lemma decompress_v1:
  assumes c: "c = MAGIC @ [1] @ rest" and len: "10 \<le> length c"
  shows "decompress c = decompressV1 c"
proof -
  have magic: "c ! 0 = 0x50" "c ! 1 = 0x57" "c ! 2 = 0x44" "c ! 3 = 0x43"
    by (simp_all add: c MAGIC_def)
  have ver: "unat (c ! 4) = 1"
    by (simp add: c MAGIC_def)
  show ?thesis
    using len unfolding decompress_def
    by (simp only: magic ver VERSION_def Let_def) simp
qed

lemma decompress_legacyContainer:
  assumes N: "length table < 65536"
    and w: "w < 256"
    and ok: "\<forall>r \<in> set runs. snd r < 65536 \<and> fst r < (if ceilDiv8 w = 1 then 256 else 65536)"
  shows "decompress (legacyContainer n w table freq runs)
         = Inr (padTo (n mod 4294967296)
                  (expandRuns table (take (length runs mod 4294967296) runs)))"
proof -
  let ?entries = "concat (map (\<lambda>i. table ! i # u32le (freq i)) [0..<length table])"
  let ?rs = "concat (map (encRun (ceilDiv8 w)) runs)"
  let ?c = "legacyContainer n w table freq runs"
  have c: "?c = MAGIC @ [1] @ u32le n @ u16le (length table) @ [word_of_nat w] @ ?entries
                  @ u32le (length runs) @ ?rs"
    by (simp add: legacyContainer_def)
  have v1: "decompress ?c = decompressV1 ?c"
    by (rule decompress_v1 [of _ "u32le n @ u16le (length table) @ [word_of_nat w] @ ?entries
                  @ u32le (length runs) @ ?rs"]) (simp_all add: c)
  have "getUint32 ((MAGIC @ [1]) @ u32le n @ u16le (length table) @ [word_of_nat w] @ ?entries
                  @ u32le (length runs) @ ?rs) 5 = Inr (n mod 4294967296)"
    by (intro getUint32_at) simp
  then have size: "getUint32 ?c 5 = Inr (n mod 4294967296)"
    by (simp add: c)
  have "getUint16 ((MAGIC @ [1] @ u32le n) @ u16le (length table) @ [word_of_nat w] @ ?entries
                  @ u32le (length runs) @ ?rs) 9 = Inr (length table)"
    using N by (intro getUint16_at) simp_all
  then have cnt: "getUint16 ?c 9 = Inr (length table)"
    by (simp add: c)
  have width: "atNum ?c 11 = w"
    using w by (simp add: c atNum_def elemAt_def nth_append unat_byte_of_nat)
  have "readTableV1 ((MAGIC @ [1] @ u32le n @ u16le (length table) @ [word_of_nat w]) @ ?entries
                  @ u32le (length runs) @ ?rs) 12 (length table) = map Some table"
    by (intro readTableV1_here) simp
  then have tab: "readTableV1 ?c 12 (length table) = map Some table"
    by (simp add: c)
  have "getUint32 ((MAGIC @ [1] @ u32le n @ u16le (length table) @ [word_of_nat w] @ ?entries)
                  @ u32le (length runs) @ ?rs) (12 + 5 * length table)
          = Inr (length runs mod 4294967296)"
    by (intro getUint32_at) (simp add: length_entries)
  then have runs: "getUint32 ?c (12 + 5 * length table) = Inr (length runs mod 4294967296)"
    by (simp add: c)
  have "runLoop ((MAGIC @ [1] @ u32le n @ u16le (length table) @ [word_of_nat w] @ ?entries
                  @ u32le (length runs)) @ ?rs) (map Some table) (ceilDiv8 w) (n mod 4294967296)
          (length runs mod 4294967296) (12 + 5 * length table + 4) (replicate (n mod 4294967296) 0) 0
        = Inr (padTo (n mod 4294967296)
                 (expandRuns table (take (length runs mod 4294967296) runs)))"
    using ok by (intro runLoop_prefix) (simp_all add: length_entries)
  then have loop: "runLoop ?c (map Some table) (ceilDiv8 w) (n mod 4294967296)
          (length runs mod 4294967296) (12 + 5 * length table + 4) (replicate (n mod 4294967296) 0) 0
        = Inr (padTo (n mod 4294967296)
                 (expandRuns table (take (length runs mod 4294967296) runs)))"
    by (simp add: c)
  show ?thesis
  proof (cases "n mod 4294967296 = 0")
    case True
    then show ?thesis
      unfolding v1 decompressV1_def by (simp add: size padTo_def)
  next
    case False
    then show ?thesis
      using loop unfolding v1 decompressV1_def by (simp add: size cnt width tab runs)
  qed
qed

section \<open>What the encoders write\<close>

lemma setBytes_zeros:
  "off = length pre \<Longrightarrow> length bs \<le> n \<Longrightarrow>
   setBytes (pre @ replicate n 0) off bs = (pre @ bs) @ replicate (n - length bs) 0"
  by (simp add: setBytes_replicate)

lemma update_zeros:
  "off = length pre \<Longrightarrow> 0 < n \<Longrightarrow>
   (pre @ replicate n 0)[off := b] = (pre @ [b]) @ replicate (n - 1) (0 :: byte)"
  using setBytes_zeros [of off pre "[b]" n] by simp

lemma writeHeader_zeros:
  assumes T: "T = 12 + length ub + k"
  shows "writeHeader (replicate T 0) mode n ub
         = MAGIC @ [2, word_of_nat mode] @ u32le n @ u16le (length ub) @ ub @ replicate k 0"
proof -
  have s1: "setBytes (replicate T 0) 0 MAGIC = MAGIC @ replicate (T - 4) 0"
    using setBytes_zeros [of 0 "[]" MAGIC T] T by simp
  have s2: "(MAGIC @ replicate (T - 4) 0)[4 := word_of_nat VERSION]
              = (MAGIC @ [2]) @ replicate (T - 5) 0"
    using update_zeros [of 4 MAGIC "T - 4" "word_of_nat VERSION"] T by (simp add: VERSION_def)
  have s3: "((MAGIC @ [2]) @ replicate (T - 5) 0)[5 := word_of_nat mode]
              = (MAGIC @ [2, word_of_nat mode]) @ replicate (T - 6) 0"
    using update_zeros [of 5 "MAGIC @ [2]" "T - 5" "word_of_nat mode"] T by simp
  have s4: "setUint32 ((MAGIC @ [2, word_of_nat mode]) @ replicate (T - 6) 0) 6 n
              = (MAGIC @ [2, word_of_nat mode] @ u32le n) @ replicate (T - 10) 0"
    using setBytes_zeros [of 6 "MAGIC @ [2, word_of_nat mode]" "u32le n" "T - 6"] T
    by (simp add: setUint32_def)
  have s5: "setUint16 ((MAGIC @ [2, word_of_nat mode] @ u32le n) @ replicate (T - 10) 0) 10
              (length ub)
              = (MAGIC @ [2, word_of_nat mode] @ u32le n @ u16le (length ub))
                  @ replicate (T - 12) 0"
    using setBytes_zeros [of 10 "MAGIC @ [2, word_of_nat mode] @ u32le n" "u16le (length ub)"
        "T - 10"] T
    by (simp add: setUint16_def)
  have s6: "setBytes ((MAGIC @ [2, word_of_nat mode] @ u32le n @ u16le (length ub))
                        @ replicate (T - 12) 0) 12 ub
              = (MAGIC @ [2, word_of_nat mode] @ u32le n @ u16le (length ub) @ ub)
                  @ replicate k 0"
    using setBytes_zeros [of 12 "MAGIC @ [2, word_of_nat mode] @ u32le n @ u16le (length ub)" ub
        "T - 12"] T
    by simp
  show ?thesis
    unfolding writeHeader_def Let_def s1 s2 s3 s4 s5 s6 by simp
qed

lemma encodeRaw_form: "encodeRaw data = MAGIC @ [2, 255] @ u32le (length data) @ data"
proof -
  let ?T = "10 + length data"
  have s1: "setBytes (replicate ?T 0) 0 MAGIC = MAGIC @ replicate (?T - 4) 0"
    using setBytes_zeros [of 0 "[]" MAGIC ?T] by simp
  have s2: "(MAGIC @ replicate (?T - 4) 0)[4 := word_of_nat VERSION]
              = (MAGIC @ [2]) @ replicate (?T - 5) 0"
    using update_zeros [of 4 MAGIC "?T - 4" "word_of_nat VERSION"] by (simp add: VERSION_def)
  have s3: "((MAGIC @ [2]) @ replicate (?T - 5) 0)[5 := 255]
              = (MAGIC @ [2, 255]) @ replicate (?T - 6) 0"
    using update_zeros [of 5 "MAGIC @ [2]" "?T - 5" 255] by simp
  have s4: "setUint32 ((MAGIC @ [2, 255]) @ replicate (?T - 6) 0) 6 (length data)
              = (MAGIC @ [2, 255] @ u32le (length data)) @ replicate (?T - 10) 0"
    using setBytes_zeros [of 6 "MAGIC @ [2, 255]" "u32le (length data)" "?T - 6"]
    by (simp add: setUint32_def)
  have s5: "setBytes ((MAGIC @ [2, 255] @ u32le (length data)) @ replicate (?T - 10) 0) 10 data
              = (MAGIC @ [2, 255] @ u32le (length data) @ data) @ replicate 0 0"
    using setBytes_zeros [of 10 "MAGIC @ [2, 255] @ u32le (length data)" data "?T - 10"]
    by simp
  have T: "4 + 1 + 1 + 4 + length data = ?T"
    by simp
  show ?thesis
    unfolding encodeRaw_def Let_def T s1 s2 s3 s4 s5 by simp
qed

lemma decompress_encodeRaw:
  "decompress (encodeRaw data) = Inr (take (length data mod 4294967296) data)"
proof (cases "length data mod 4294967296 = 0")
  case True
  then show ?thesis
    by (simp add: decompress_v2_fields [OF encodeRaw_form])
next
  case False
  then show ?thesis
    by (simp add: decompress_v2_fields [OF encodeRaw_form] sliceArr_def)
       (simp add: encodeRaw_form)
qed

section \<open>Run records\<close>

lemma rleLoop_expand:
  "concat (map (\<lambda>r. replicate (snd r) (fst r)) (rleLoop b2i ds cur cnt acc))
     = concat (map (\<lambda>r. replicate (snd r) (fst r)) acc) @ replicate cnt cur @ map (getIdx b2i) ds"
proof (induction ds arbitrary: cur cnt acc)
  case Nil
  then show ?case by simp
next
  case (Cons d ds)
  show ?case
  proof (cases "getIdx b2i d = cur \<and> cnt < 65535")
    case True
    then show ?thesis
      using Cons.IH [of cur "cnt + 1" acc] by (simp add: replicate_app_Cons_same)
  next
    case False
    then show ?thesis
      using Cons.IH [of "getIdx b2i d" 1 "acc @ [(cur, cnt)]"] by auto
  qed
qed

lemma rleLoop_ok:
  assumes "\<forall>r \<in> set acc. snd r < 65536 \<and> fst r < N" "cnt < 65536" "cur < N"
    "\<forall>d \<in> set ds. getIdx b2i d < N"
  shows "\<forall>r \<in> set (rleLoop b2i ds cur cnt acc). snd r < 65536 \<and> fst r < N"
  using assms
proof (induction ds arbitrary: cur cnt acc)
  case Nil
  then show ?case by auto
next
  case (Cons d ds)
  show ?case
  proof (cases "getIdx b2i d = cur \<and> cnt < 65535")
    case True
    then have "rleLoop b2i (d # ds) cur cnt acc = rleLoop b2i ds cur (cnt + 1) acc"
      by simp
    moreover have "\<forall>r \<in> set (rleLoop b2i ds cur (cnt + 1) acc). snd r < 65536 \<and> fst r < N"
      using Cons.prems True by (intro Cons.IH) auto
    ultimately show ?thesis by simp
  next
    case False
    then have "rleLoop b2i (d # ds) cur cnt acc
        = rleLoop b2i ds (getIdx b2i d) 1 (acc @ [(cur, cnt)])"
      by auto
    moreover have "\<forall>r \<in> set (rleLoop b2i ds (getIdx b2i d) 1 (acc @ [(cur, cnt)])).
        snd r < 65536 \<and> fst r < N"
      using Cons.prems by (intro Cons.IH) auto
    ultimately show ?thesis by simp
  qed
qed

lemma rleLoop_length:
  "length (rleLoop b2i ds cur cnt acc) \<le> length acc + 1 + length ds"
proof (induction ds arbitrary: cur cnt acc)
  case Nil
  then show ?case by simp
next
  case (Cons d ds)
  show ?case
    using Cons.IH [of cur "cnt + 1" acc] Cons.IH [of "getIdx b2i d" 1 "acc @ [(cur, cnt)]"]
    by (auto simp: Let_def)
qed

lemma writeRuns_one:
  assumes "3 * length runs \<le> length zs"
  shows "writeRuns (pre @ zs) (length pre) 1 runs
         = (pre @ concat (map (encRun 1) runs) @ drop (3 * length runs) zs,
            length pre + 3 * length runs)"
  using assms
proof (induction runs arbitrary: pre zs)
  case Nil
  then show ?case by simp
next
  case (Cons r runs)
  obtain i c where r: "r = (i, c)" by (cases r)
  obtain z zs' where zs: "zs = z # zs'"
    using Cons.prems by (cases zs) auto
  have u: "setUint16 ((pre @ [word_of_nat i]) @ zs') (length (pre @ [word_of_nat i])) c
             = (pre @ [word_of_nat i]) @ u16le c @ drop (length (u16le c)) zs'"
    unfolding setUint16_def using Cons.prems zs by (intro setBytes_append) simp
  have ih: "writeRuns ((pre @ encRun 1 r) @ drop 2 zs') (length (pre @ encRun 1 r)) 1 runs
        = ((pre @ encRun 1 r) @ concat (map (encRun 1) runs)
             @ drop (3 * length runs) (drop 2 zs'),
           length (pre @ encRun 1 r) + 3 * length runs)"
    using Cons.prems zs by (intro Cons.IH) simp
  have step: "writeRuns (pre @ zs) (length pre) 1 (r # runs)
      = writeRuns ((pre @ encRun 1 r) @ drop 2 zs') (length (pre @ encRun 1 r)) 1 runs"
    using u by (simp add: r zs encRun_def)
  have d: "drop (3 + 3 * length runs) (z # zs') = drop (3 * length runs) (drop 2 zs')"
    by (simp add: numeral_3_eq_3)
  show ?case
    unfolding step ih by (simp add: zs d length_encRun del: drop_drop)
qed

section \<open>The layout of the encoded containers\<close>

lemma encodeMode1_form:
  assumes N: "length ub \<le> 256"
  shows "encodeMode1 data ub b2i (bitsFor (length ub))
         = modernContainer (length data) ub
             (rleLoop b2i (drop 1 data) (case data of [] \<Rightarrow> 0 | d # x \<Rightarrow> getIdx b2i d) 1 [])"
proof -
  let ?runs = "rleLoop b2i (drop 1 data) (case data of [] \<Rightarrow> 0 | d # x \<Rightarrow> getIdx b2i d) 1 []"
  let ?L = "length ?runs"
  let ?H = "MAGIC @ [2, 1] @ u32le (length data) @ u16le (length ub) @ ub"
  have rb: "ceilDiv8 (bitsFor (length ub)) = 1"
    by (rule runBytes_small [OF N])
  have T: "4 + 1 + 1 + 4 + 2 + length ub + (4 + ?L * (1 + 2)) = 12 + length ub + (4 + 3 * ?L)"
    by simp
  have h: "writeHeader (replicate (12 + length ub + (4 + 3 * ?L)) 0) 1 (length data) ub
             = ?H @ replicate (4 + 3 * ?L) 0"
    using writeHeader_zeros [of "12 + length ub + (4 + 3 * ?L)" ub "4 + 3 * ?L" 1 "length data"]
    by simp
  have s: "setUint32 (?H @ replicate (4 + 3 * ?L) 0) (12 + length ub) ?L
             = (?H @ u32le ?L) @ replicate (3 * ?L) 0"
    using setBytes_zeros [of "12 + length ub" ?H "u32le ?L" "4 + 3 * ?L"]
    by (simp add: setUint32_def)
  have w: "writeRuns ((?H @ u32le ?L) @ replicate (3 * ?L) 0) (12 + length ub + 4) 1 ?runs
             = ((?H @ u32le ?L) @ concat (map (encRun 1) ?runs), 12 + length ub + 4 + 3 * ?L)"
    using writeRuns_one [of ?runs "replicate (3 * ?L) 0" "?H @ u32le ?L"] by simp
  have len: "length ((?H @ u32le ?L) @ concat (map (encRun 1) ?runs)) = 12 + length ub + 4 + 3 * ?L"
    by (simp add: length_concat comp_def length_encRun sum_list_triv)
  have "encodeMode1 data ub b2i (bitsFor (length ub))
          = sliceArr ((?H @ u32le ?L) @ concat (map (encRun 1) ?runs)) 0
              (12 + length ub + 4 + 3 * ?L)"
    unfolding encodeMode1_def Let_def rb T h s w by simp
  also have "\<dots> = (?H @ u32le ?L) @ concat (map (encRun 1) ?runs)"
    unfolding sliceArr_def using len by simp
  finally show ?thesis
    by (simp add: modernContainer_def rb)
qed

lemma take_packStep: "take ps (packStep bits ps idx p out) = take ps out"
  by (simp add: packStep_def orAt_def Let_def)

lemma take_packLoop: "take ps (packLoop b2i bits ps ds p out) = take ps out"
  by (induction ds arbitrary: p out) (simp_all add: take_packStep)

lemma encodeMode0_form:
  "encodeMode0 data ub b2i bits
   = packLoop b2i bits (12 + length ub) data 0
       ((MAGIC @ [2, 0] @ u32le (length data) @ u16le (length ub) @ ub)
          @ replicate ((length data * bits + 7) div 8) 0)"
proof -
  let ?m = "(length data * bits + 7) div 8"
  have h: "writeHeader (replicate (12 + length ub + ?m) 0) 0 (length data) ub
             = MAGIC @ [2, 0] @ u32le (length data) @ u16le (length ub) @ ub @ replicate ?m 0"
    using writeHeader_zeros [of "12 + length ub + ?m" ub ?m 0 "length data"] by simp
  have T: "4 + 1 + 1 + 4 + 2 + length ub + ?m = 12 + length ub + ?m"
    by simp
  show ?thesis
    unfolding encodeMode0_def Let_def T h by simp
qed

lemma length_encodeMode0:
  "length (encodeMode0 data ub b2i bits) = 12 + length ub + (length data * bits + 7) div 8"
  by (simp add: encodeMode0_form)

lemma length_encodeRaw: "length (encodeRaw data) = length data + 10"
  by (simp add: encodeRaw_form)

section \<open>Round trip of the single-buffer codec\<close>

lemma take_prefix: "n = length xs \<Longrightarrow> take n (xs @ ys) = xs"
  by simp

lemma decompress_encodeMode0:
  assumes ub: "distinct ub" "set data \<subseteq> set ub"
    and n: "length data mod 4294967296 \<noteq> 0"
  shows "decompress (encodeMode0 data ub (buildIndex ub 0 []) (bitsFor (length ub)))
         = Inr (unpackLoop (encodeMode0 data ub (buildIndex ub 0 []) (bitsFor (length ub)))
                  (12 + length ub) (bitsFor (length ub)) (map Some ub)
                  (length data mod 4294967296) 0)"
proof -
  let ?c = "encodeMode0 data ub (buildIndex ub 0 []) (bitsFor (length ub))"
  let ?H = "MAGIC @ [2, 0] @ u32le (length data) @ u16le (length ub) @ ub"
  have N: "length ub \<le> 256"
    by (rule distinct_bytes_length [OF ub(1)])
  have "take (12 + length ub) (?H @ replicate ((length data * bitsFor (length ub) + 7) div 8) 0)
          = ?H"
    by (rule take_prefix) simp
  then have "take (12 + length ub) ?c = ?H"
    by (simp only: encodeMode0_form take_packLoop)
  then have "?c = ?H @ drop (12 + length ub) ?c"
    by (metis append_take_drop_id)
  then have c: "?c = MAGIC @ [2, 0] @ u32le (length data) @ u16le (length ub) @ ub
                       @ drop (12 + length ub) ?c"
    by simp
  have "getUint16 ((MAGIC @ [2, 0] @ u32le (length data)) @ u16le (length ub) @ ub
                       @ drop (12 + length ub) ?c) 10 = Inr (length ub)"
    using N by (intro getUint16_at) simp_all
  then have cnt: "getUint16 ?c 10 = Inr (length ub)"
    using c by simp
  have "readTable ((MAGIC @ [2, 0] @ u32le (length data) @ u16le (length ub)) @ ub
                       @ drop (12 + length ub) ?c) 12 (length ub) = map Some ub"
    by (intro readTable_here) simp
  then have tab: "readTable ?c 12 (length ub) = map Some ub"
    using c by simp
  show ?thesis
    using n by (simp add: decompress_v2_fields [OF c] cnt tab decompressMode0_def)
qed

lemma roundtrip_mode0:
  assumes ub: "distinct ub" "set data \<subseteq> set ub"
    and n: "length data < 4294967296"
  shows "decompress (encodeMode0 data ub (buildIndex ub 0 []) (bitsFor (length ub))) = Inr data"
proof (cases "data = []")
  case True
  have "decompress (MAGIC @ [2, 0] @ u32le 0 @ u16le (length ub) @ ub) = Inr []"
    by (simp add: decompress_v2_fields [of _ 0 0 "u16le (length ub) @ ub"])
  then show ?thesis
    using True by (simp add: encodeMode0_form)
next
  case False
  then have nz: "length data mod 4294967296 \<noteq> 0"
    using n by simp
  have N: "length ub \<le> 256"
    by (rule distinct_bytes_length [OF ub(1)])
  have m: "length data * bitsFor (length ub) \<le> 8 * ((length data * bitsFor (length ub) + 7) div 8)"
    by simp
  have "unpackLoop (packLoop (buildIndex ub 0 []) (bitsFor (length ub)) (12 + length ub) data 0
          ((MAGIC @ [2, 0] @ u32le (length data) @ u16le (length ub) @ ub)
             @ replicate ((length data * bitsFor (length ub) + 7) div 8) 0))
          (12 + length ub) (bitsFor (length ub)) (map Some ub) (length data) 0 = data"
    by (rule unpack_pack [OF ub N _ m]) simp
  then have "unpackLoop (encodeMode0 data ub (buildIndex ub 0 []) (bitsFor (length ub)))
          (12 + length ub) (bitsFor (length ub)) (map Some ub) (length data) 0 = data"
    by (simp only: encodeMode0_form)
  moreover have "length data mod 4294967296 = length data"
    using n by simp
  ultimately show ?thesis
    by (simp only: decompress_encodeMode0 [OF ub nz])
qed

lemma expandRuns_indices:
  assumes "\<forall>r \<in> set runs. fst r < length table"
  shows "expandRuns table runs
         = map (\<lambda>i. table ! i) (concat (map (\<lambda>r. replicate (snd r) (fst r)) runs))"
  using assms by (induction runs) (simp_all add: expandRuns_def)

lemma roundtrip_mode1:
  assumes ub: "distinct ub" "set data \<subseteq> set ub"
    and n: "length data < 4294967296"
    and ne: "data \<noteq> []"
  shows "decompress (encodeMode1 data ub (buildIndex ub 0 []) (bitsFor (length ub))) = Inr data"
proof -
  let ?b2i = "buildIndex ub 0 []"
  obtain d ds where data: "data = d # ds"
    using ne by (cases data) auto
  let ?runs = "rleLoop ?b2i ds (getIdx ?b2i d) 1 []"
  have N: "length ub \<le> 256"
    by (rule distinct_bytes_length [OF ub(1)])
  have sym: "getIdx ?b2i x < length ub \<and> ub ! getIdx ?b2i x = x" if "x \<in> set data" for x
    using getIdx_buildIndex_mem [OF ub(1), of x] that ub(2) by auto
  have ok: "\<forall>r \<in> set ?runs. snd r < 65536 \<and> fst r < length ub"
    using sym by (intro rleLoop_ok) (simp_all add: data)
  have ok': "\<forall>r \<in> set ?runs. snd r < 65536
      \<and> fst r < (if ceilDiv8 (bitsFor (length ub)) = 1 then 256 else 65536)"
    using ok N by auto
  have L: "length ?runs < 4294967296"
    using rleLoop_length [of ?b2i ds "getIdx ?b2i d" 1 "[]"] n by (simp add: data)
  have "expandRuns ub ?runs = map (\<lambda>i. ub ! i) (map (getIdx ?b2i) data)"
    using ok by (simp add: expandRuns_indices rleLoop_expand data)
  also have "\<dots> = data"
    using sym by (simp add: map_idI)
  finally have ex: "expandRuns ub ?runs = data" .
  have N': "length ub < 65536"
    using N by simp
  have "decompress (modernContainer (length data) ub ?runs)
          = Inr (padTo (length data) (expandRuns ub ?runs))"
    using decompress_modernContainer [OF N' ok', of "length data"] L n by simp
  then have "decompress (modernContainer (length data) ub ?runs) = Inr data"
    by (simp only: ex padTo_exact)
  then show ?thesis
    using encodeMode1_form [OF N, of data ?b2i] by (simp add: data)
qed

lemma roundtrip_raw:
  "length data < 4294967296 \<Longrightarrow> decompress (encodeRaw data) = Inr data"
  by (simp add: decompress_encodeRaw)

lemma compress_cases:
  assumes "data \<noteq> []"
  shows "compress data = encodeRaw data
       \<or> compress data = encodeMode0 data (symbolTable data) (buildIndex (symbolTable data) 0 [])
                           (bitsFor (length (symbolTable data)))
       \<or> compress data = encodeMode1 data (symbolTable data) (buildIndex (symbolTable data) 0 [])
                           (bitsFor (length (symbolTable data)))"
  using assms by (simp add: compress_def Let_def symbolTable_def)

lemma compress_roundtrip:
  assumes "length data < 4294967296"
  shows "decompress (compress data) = Inr data"
proof (cases "data = []")
  case True
  have "decompress (MAGIC @ [2, 0] @ u32le 0 @ [0]) = Inr []"
    by (simp add: decompress_v2_fields [of _ 0 0 "[0]"])
  then show ?thesis
    using True by (simp add: compress_def VERSION_def u32le_def)
next
  case False
  have ub: "distinct (symbolTable data)" "set data \<subseteq> set (symbolTable data)"
    by (simp_all add: distinct_symbolTable set_symbolTable)
  show ?thesis
    using compress_cases [OF False] roundtrip_raw [OF assms] roundtrip_mode0 [OF ub assms]
      roundtrip_mode1 [OF ub assms False]
    by auto
qed

section \<open>Lengths and the four-byte length field\<close>

lemma list_update_Cons_numeral: "(x # xs)[numeral k := y] = x # xs[pred_numeral k := y]"
  by (simp add: numeral_eq_Suc)

lemma replicate_numeral: "replicate (numeral k) x = x # replicate (pred_numeral k) x"
  by (simp add: numeral_eq_Suc)

lemma bitsFor_1: "bitsFor (Suc 0) = 1"
  by (simp add: bitsFor_def ceilLog2.simps)

lemma length_compress_nonempty:
  assumes "data \<noteq> []"
  shows "length (compress data) \<le> length data + 10"
  using assms by (simp add: compress_def Let_def length_encodeRaw)

lemma compress_header:
  assumes "data \<noteq> []"
  shows "\<exists>m rest. compress data = MAGIC @ [2, m] @ u32le (length data) @ rest"
proof -
  let ?ub = "symbolTable data"
  let ?b2i = "buildIndex ?ub 0 []"
  let ?bits = "bitsFor (length ?ub)"
  have N: "length ?ub \<le> 256"
    by (rule length_symbolTable)
  have raw: "\<exists>m rest. encodeRaw data = MAGIC @ [2, m] @ u32le (length data) @ rest"
    using encodeRaw_form [of data] by blast
  have m1: "\<exists>m rest. encodeMode1 data ?ub ?b2i ?bits = MAGIC @ [2, m] @ u32le (length data) @ rest"
    unfolding encodeMode1_form [OF N] modernContainer_def by (intro exI) simp
  let ?H = "MAGIC @ [2, 0] @ u32le (length data) @ u16le (length ?ub) @ ?ub"
  let ?c = "encodeMode0 data ?ub ?b2i ?bits"
  have "take (12 + length ?ub) (?H @ replicate ((length data * ?bits + 7) div 8) 0) = ?H"
    by (rule take_prefix) simp
  then have "take (12 + length ?ub) ?c = ?H"
    by (simp only: encodeMode0_form take_packLoop)
  then have "?c = ?H @ drop (12 + length ?ub) ?c"
    by (metis append_take_drop_id)
  then have "?c = MAGIC @ [2, 0] @ u32le (length data)
                    @ (u16le (length ?ub) @ ?ub @ drop (12 + length ?ub) ?c)"
    by simp
  then have m0: "\<exists>m rest. ?c = MAGIC @ [2, m] @ u32le (length data) @ rest"
    by blast
  show ?thesis
    using compress_cases [OF assms] raw m0 m1 by metis
qed

lemma compress_wraps:
  assumes "data \<noteq> []" "length data mod 4294967296 = 0"
  shows "decompress (compress data) = Inr []"
proof -
  obtain m rest where c: "compress data = MAGIC @ [2, m] @ u32le (length data) @ rest"
    using compress_header [OF assms(1)] by blast
  show ?thesis
    using assms(2) by (simp add: decompress_v2_fields [OF c])
qed

section \<open>Claims C9 and C10\<close>

text \<open>
  C9. An input shorter than 10 bytes is rejected as too short, whatever its contents: the
  length test comes before the magic marker or any other field is inspected, and no buffer
  is returned.
\<close>

theorem decompress_too_short:
  "length compressed < 10 \<Longrightarrow> decompress compressed = Inl TooShort"
  by (simp add: decompress_def)

theorem decompress_too_short_witness:
  "length [0x50, 0x57, 0x44, 0x43, 2, 0, 0, 0, 0 :: byte] < 10
   \<and> decompress [0x50, 0x57, 0x44, 0x43, 2, 0, 0, 0, 0] = Inl TooShort"
  using decompress_too_short [of "[0x50, 0x57, 0x44, 0x43, 2, 0, 0, 0, 0]"] by simp

text \<open>
  C10. The empty frame list compresses to a zero-length byte array (no 8-byte sequence
  header), whatever the keyframe interval, and a zero-length input decompresses to the
  empty frame list.
\<close>

theorem empty_sequence_roundtrip:
  "compressFrameSequence [] keyframeInterval = Inr []
   \<and> decompressFrameSequence [] = Inr []"
  by (simp add: compressFrameSequence_def decompressFrameSequence_def)

section \<open>Claims on the single-buffer codec: C1, C3, C5\<close>

text \<open>
  C1, as amended. For every byte buffer of fewer than \<open>2 ^ 32\<close> bytes (the empty buffer,
  single-byte buffers, a buffer of all 256 values and a buffer of one repeated value among
  them), \<^verbatim>\<open>decompress(compress(B))\<close> returns a buffer equal to \<open>B\<close>.
\<close>

theorem compress_decompress_roundtrip:
  "length B < 4294967296 \<Longrightarrow> decompress (compress B) = Inr B"
  by (rule compress_roundtrip)

theorem compress_decompress_roundtrip_witness:
  "length ([] :: byte list) < 4294967296 \<and> decompress (compress []) = Inr []
   \<and> length [7 :: byte] < 4294967296 \<and> decompress (compress [7]) = Inr [7]
   \<and> length (replicate 1000 (9 :: byte)) < 4294967296
   \<and> decompress (compress (replicate 1000 9)) = Inr (replicate 1000 9)"
  using compress_decompress_roundtrip [of "[]"] compress_decompress_roundtrip [of "[7]"]
    compress_decompress_roundtrip [of "replicate 1000 9"]
  by simp

text \<open>
  C1 as stated fails: the container stores the original length in four bytes, so for a
  buffer of exactly \<open>2 ^ 32\<close> zero bytes the stored length is 0 and \<^verbatim>\<open>decompress\<close>
  returns the empty buffer.
\<close>

theorem compress_decompress_roundtrip_counterexample:
  "decompress (compress (replicate 4294967296 0)) \<noteq> Inr (replicate 4294967296 0)"
proof -
  have "decompress (compress (replicate 4294967296 0)) = Inr []"
    by (rule compress_wraps) simp_all
  then show ?thesis by simp
qed

text \<open>
  C3 fails on the empty buffer: \<^verbatim>\<open>compress\<close> returns its literal 11-byte container,
  one byte more than the length of the input plus 10.
\<close>

theorem compress_empty_length:
  "length (compress []) = 11 \<and> \<not> length (compress []) \<le> length ([] :: byte list) + 10"
  by (simp add: compress_def)

text \<open>
  C5, as amended. For every mode-1 container that holds the run records its run count
  announces (original length \<open>n\<close>, a symbol table, run records whose fields fit their
  widths) and whose runs expand to fewer than \<open>n\<close> bytes, \<^verbatim>\<open>decompress\<close> raises
  nothing: it returns a buffer of \<open>n\<close> bytes, the expanded runs followed by zeros.
\<close>

theorem mode1_exhausted_runs_zero_filled:
  assumes "n < 4294967296" "length table < 65536" "length runs < 4294967296"
    and "\<forall>r \<in> set runs. snd r < 65536
           \<and> fst r < (if ceilDiv8 (bitsFor (length table)) = 1 then 256 else 65536)"
    and "length (expandRuns table runs) < n"
  shows "decompress (modernContainer n table runs)
         = Inr (expandRuns table runs @ replicate (n - length (expandRuns table runs)) 0)"
  using decompress_modernContainer [OF assms(2) assms(4), of n] assms(1,3,5)
  by (simp add: padTo_def)

lemma container_example:
  "modernContainer 5 [65] [(0, 2)]
   = [80, 87, 68, 67, 2, 1, 5, 0, 0, 0, 1, 0, 65, 1, 0, 0, 0, 0, 2, 0]"
  by (simp add: modernContainer_def MAGIC_def u32le_def u16le_def encRun_def bitsFor_1 ceilDiv8_def)

theorem mode1_exhausted_runs_zero_filled_witness:
  "decompress (modernContainer 5 [65] [(0, 2)]) = Inr [65, 65, 0, 0, 0]"
  using mode1_exhausted_runs_zero_filled [of 5 "[65]" "[(0, 2)]"]
  by (simp add: expandRuns_def bitsFor_1 ceilDiv8_def replicate_numeral)

text \<open>
  C5 as stated fails: in this mode-1 container (original length 5, table \<open>[65]\<close>, one
  run of length 2) the runs are exhausted after 2 bytes, and \<^verbatim>\<open>decompress\<close> returns a
  zero-padded buffer instead of raising.
\<close>

theorem mode1_exhausted_runs_counterexample:
  "decompress [80, 87, 68, 67, 2, 1, 5, 0, 0, 0, 1, 0, 65, 1, 0, 0, 0, 0, 2, 0]
   = Inr [65, 65, 0, 0, 0]"
proof -
  have "decompress (modernContainer 5 [65] [(0, 2)])
          = Inr (padTo (5 mod 4294967296)
                   (expandRuns [65] (take (length [(0 :: nat, 2 :: nat)] mod 4294967296) [(0, 2)])))"
    by (rule decompress_modernContainer) (simp_all add: bitsFor_1 ceilDiv8_def)
  then show ?thesis
    by (simp add: container_example padTo_def expandRuns_def replicate_numeral)
qed

section \<open>Claim C7: legacy containers\<close>

lemma runRecords_ok: "\<forall>r \<in> set (runRecords B). snd r < 65536 \<and> fst r < 256"
proof -
  let ?ub = "symbolTable B"
  let ?b2i = "buildIndex ?ub 0 []"
  have N: "length ?ub \<le> 256"
    by (rule length_symbolTable)
  have sym: "getIdx ?b2i x < 256" if "x \<in> set B" for x
    using getIdx_buildIndex_mem [OF distinct_symbolTable, of x B] that N
    by (simp add: set_symbolTable)
  show ?thesis
  proof (cases B)
    case Nil
    then show ?thesis
      by (simp add: runRecords_def Let_def)
  next
    case (Cons d ds)
    have "\<forall>r \<in> set (rleLoop ?b2i ds (getIdx ?b2i d) 1 []). snd r < 65536 \<and> fst r < 256"
      using sym by (intro rleLoop_ok) (simp_all add: Cons)
    then show ?thesis
      by (simp add: runRecords_def Let_def Cons)
  qed
qed

text \<open>
  C7. For every source buffer \<open>B\<close>, the legacy container of \<open>B\<close> (its symbol table with
  a 4-byte frequency after each value, the index width stored explicitly, its run records)
  decodes to the same result as the modern mode-1 container with the same symbol table and
  run records, which is the container \<^verbatim>\<open>encodeMode1\<close> writes for \<open>B\<close>; the result does
  not depend on the frequencies \<open>freq\<close>; and for a buffer of fewer than \<open>2 ^ 32\<close> bytes
  the result is \<open>B\<close> itself.
\<close>

theorem legacy_decodes_as_modern:
  "decompress (legacyContainer (length B) (bitsFor (length (symbolTable B))) (symbolTable B) freq
                 (runRecords B))
     = decompress (modernContainer (length B) (symbolTable B) (runRecords B))
   \<and> decompress (legacyContainer (length B) (bitsFor (length (symbolTable B))) (symbolTable B) freq
                 (runRecords B))
     = decompress (legacyContainer (length B) (bitsFor (length (symbolTable B))) (symbolTable B) freq'
                 (runRecords B))
   \<and> modernContainer (length B) (symbolTable B) (runRecords B)
     = encodeMode1 B (symbolTable B) (buildIndex (symbolTable B) 0 [])
         (bitsFor (length (symbolTable B)))
   \<and> (length B < 4294967296 \<longrightarrow>
        decompress (legacyContainer (length B) (bitsFor (length (symbolTable B))) (symbolTable B)
                      freq (runRecords B)) = Inr B)"
proof -
  let ?ub = "symbolTable B"
  let ?w = "bitsFor (length ?ub)"
  have N: "length ?ub \<le> 256"
    by (rule length_symbolTable)
  then have N': "length ?ub < 65536"
    by simp
  have w: "?w < 256"
    using bitsFor_le8 [OF N] by simp
  have rb: "ceilDiv8 ?w = 1"
    by (rule runBytes_small [OF N])
  have ok: "\<forall>r \<in> set (runRecords B). snd r < 65536
      \<and> fst r < (if ceilDiv8 ?w = 1 then 256 else 65536)"
    using runRecords_ok [of B] rb by simp
  have legacy: "decompress (legacyContainer (length B) ?w ?ub f (runRecords B))
      = Inr (padTo (length B mod 4294967296)
               (expandRuns ?ub (take (length (runRecords B) mod 4294967296) (runRecords B))))" for f
    by (rule decompress_legacyContainer [OF N' w ok])
  have modern: "decompress (modernContainer (length B) ?ub (runRecords B))
      = Inr (padTo (length B mod 4294967296)
               (expandRuns ?ub (take (length (runRecords B) mod 4294967296) (runRecords B))))"
    by (rule decompress_modernContainer [OF N' ok])
  have enc: "modernContainer (length B) ?ub (runRecords B)
      = encodeMode1 B ?ub (buildIndex ?ub 0 []) ?w"
    by (simp add: encodeMode1_form [OF N] runRecords_def Let_def)
  have same: "decompress (legacyContainer (length B) ?w ?ub freq (runRecords B))
            = decompress (modernContainer (length B) ?ub (runRecords B))"
    by (simp only: legacy modern)
  have restored: "decompress (legacyContainer (length B) ?w ?ub freq (runRecords B)) = Inr B"
    if n: "length B < 4294967296"
  proof (cases "B = []")
    case True
    have "padTo (length B mod 4294967296)
            (expandRuns ?ub (take (length (runRecords B) mod 4294967296) (runRecords B))) = B"
      using True by (simp add: padTo_def)
    then show ?thesis
      by (simp only: legacy)
  next
    case False
    have "decompress (encodeMode1 B ?ub (buildIndex ?ub 0 []) ?w) = Inr B"
      by (rule roundtrip_mode1 [OF distinct_symbolTable _ n False]) (simp add: set_symbolTable)
    then show ?thesis
      by (simp only: same enc)
  qed
  show ?thesis
  proof (intro conjI impI)
    show "decompress (legacyContainer (length B) ?w ?ub freq (runRecords B))
            = decompress (modernContainer (length B) ?ub (runRecords B))"
      by (rule same)
    show "decompress (legacyContainer (length B) ?w ?ub freq (runRecords B))
            = decompress (legacyContainer (length B) ?w ?ub freq' (runRecords B))"
      by (simp only: legacy)
    show "modernContainer (length B) ?ub (runRecords B)
            = encodeMode1 B ?ub (buildIndex ?ub 0 []) ?w"
      by (rule enc)
    show "decompress (legacyContainer (length B) ?w ?ub freq (runRecords B)) = Inr B"
      if "length B < 4294967296"
      by (rule restored [OF that])
  qed
qed

theorem legacy_decodes_as_modern_witness:
  "decompress (legacyContainer (length [65, 65, 66 :: byte])
                 (bitsFor (length (symbolTable [65, 65, 66]))) (symbolTable [65, 65, 66])
                 (\<lambda>i. 2 - i) (runRecords [65, 65, 66]))
     = decompress (modernContainer (length [65, 65, 66 :: byte]) (symbolTable [65, 65, 66])
                     (runRecords [65, 65, 66]))
   \<and> decompress (legacyContainer (length [65, 65, 66 :: byte])
                 (bitsFor (length (symbolTable [65, 65, 66]))) (symbolTable [65, 65, 66])
                 (\<lambda>i. 2 - i) (runRecords [65, 65, 66]))
     = decompress (legacyContainer (length [65, 65, 66 :: byte])
                 (bitsFor (length (symbolTable [65, 65, 66]))) (symbolTable [65, 65, 66])
                 (\<lambda>i. 4000000000) (runRecords [65, 65, 66]))
   \<and> length [65, 65, 66 :: byte] < 4294967296
   \<and> decompress (legacyContainer (length [65, 65, 66 :: byte])
                 (bitsFor (length (symbolTable [65, 65, 66]))) (symbolTable [65, 65, 66])
                 (\<lambda>i. 2 - i) (runRecords [65, 65, 66]))
     = Inr [65, 65, 66]"
proof -
  have n: "length [65, 65, 66 :: byte] < 4294967296"
    by simp
  show ?thesis
    using legacy_decodes_as_modern [of "[65, 65, 66]" "\<lambda>i. 2 - i" "\<lambda>i. 4000000000"] n
    by blast
qed

section \<open>Claim C8: the AAAAABBBBBCCCCC scenario\<close>

lemma compress_nonempty:
  assumes "data \<noteq> []"
  shows "compress data =
     (if length data + 10
           \<le> length (if length (encodeMode0 data (symbolTable data)
                                    (buildIndex (symbolTable data) 0 [])
                                    (bitsFor (length (symbolTable data))))
                          \<le> length (encodeMode1 data (symbolTable data)
                                      (buildIndex (symbolTable data) 0 [])
                                      (bitsFor (length (symbolTable data))))
                       then encodeMode0 data (symbolTable data)
                              (buildIndex (symbolTable data) 0 [])
                              (bitsFor (length (symbolTable data)))
                       else encodeMode1 data (symbolTable data)
                              (buildIndex (symbolTable data) 0 [])
                              (bitsFor (length (symbolTable data))))
      then encodeRaw data
      else (if length (encodeMode0 data (symbolTable data)
                         (buildIndex (symbolTable data) 0 [])
                         (bitsFor (length (symbolTable data))))
               \<le> length (encodeMode1 data (symbolTable data)
                           (buildIndex (symbolTable data) 0 [])
                           (bitsFor (length (symbolTable data))))
            then encodeMode0 data (symbolTable data)
                   (buildIndex (symbolTable data) 0 [])
                   (bitsFor (length (symbolTable data)))
            else encodeMode1 data (symbolTable data)
                   (buildIndex (symbolTable data) 0 [])
                   (bitsFor (length (symbolTable data)))))"
  using assms by (simp add: compress_def Let_def symbolTable_def)

lemma symbolTable_abc:
  "symbolTable [65, 65, 65, 65, 65, 66, 66, 66, 66, 66, 67, 67, 67, 67, 67] = [65, 66, 67]"
  by (simp add: symbolTable_def mapKeys_def mapGet_def byteToWavelength_def)

lemma bitsFor_3: "bitsFor (Suc (Suc (Suc 0))) = 2"
  by (simp add: bitsFor_def ceilLog2.simps)

lemma buildIndex_abc: "buildIndex [65, 66, 67] 0 [] = [(65, 0), (66, 1), (67, 2)]"
  by simp

lemma packLoop_abc:
  "packLoop [(65, 0), (66, 1), (67, 2)] 2 15
     [65, 65, 65, 65, 65, 66, 66, 66, 66, 66, 67, 67, 67, 67, 67] 0
     [80, 87, 68, 67, 2, 0, 15, 0, 0, 0, 3, 0, 65, 66, 67, 0, 0, 0, 0]
   = [80, 87, 68, 67, 2, 0, 15, 0, 0, 0, 3, 0, 65, 66, 67, 0, 84, 165, 42]"
  by (simp add: packStep_def orAt_def getIdx_def mapGet_def Let_def list_update_Cons_numeral)

lemma encodeMode0_abc:
  "encodeMode0 [65, 65, 65, 65, 65, 66, 66, 66, 66, 66, 67, 67, 67, 67, 67]
     (symbolTable [65, 65, 65, 65, 65, 66, 66, 66, 66, 66, 67, 67, 67, 67, 67])
     (buildIndex (symbolTable [65, 65, 65, 65, 65, 66, 66, 66, 66, 66, 67, 67, 67, 67, 67]) 0 [])
     (bitsFor (length (symbolTable [65, 65, 65, 65, 65, 66, 66, 66, 66, 66, 67, 67, 67, 67, 67])))
   = [80, 87, 68, 67, 2, 0, 15, 0, 0, 0, 3, 0, 65, 66, 67, 0, 84, 165, 42]"
proof -
  have bits: "bitsFor (length [65, 66, 67 :: byte]) = 2"
    by (simp add: bitsFor_3)
  have ps: "12 + length [65, 66, 67 :: byte] = 15"
    by simp
  have hdr: "(MAGIC @ [2, 0]
               @ u32le (length [65, 65, 65, 65, 65, 66, 66, 66, 66, 66, 67, 67, 67, 67, 67 :: byte])
               @ u16le (length [65, 66, 67 :: byte]) @ [65, 66, 67])
             @ replicate ((length [65, 65, 65, 65, 65, 66, 66, 66, 66, 66, 67, 67, 67, 67, 67 :: byte]
                            * 2 + 7) div 8) 0
             = [80, 87, 68, 67, 2, 0, 15, 0, 0, 0, 3, 0, 65, 66, 67, 0, 0, 0, 0]"
    by (simp add: MAGIC_def u32le_def u16le_def replicate_numeral)
  show ?thesis
    unfolding symbolTable_abc buildIndex_abc bits encodeMode0_form ps hdr
    by (rule packLoop_abc)
qed

lemma length_modernContainer:
  "length (modernContainer n table runs)
   = 16 + length table + (if ceilDiv8 (bitsFor (length table)) = 1 then 3 else 4) * length runs"
  by (simp add: modernContainer_def length_concat comp_def length_encRun sum_list_triv)

lemma length_encodeMode1_abc:
  "length (encodeMode1 [65, 65, 65, 65, 65, 66, 66, 66, 66, 66, 67, 67, 67, 67, 67]
     (symbolTable [65, 65, 65, 65, 65, 66, 66, 66, 66, 66, 67, 67, 67, 67, 67])
     (buildIndex (symbolTable [65, 65, 65, 65, 65, 66, 66, 66, 66, 66, 67, 67, 67, 67, 67]) 0 [])
     (bitsFor (length (symbolTable [65, 65, 65, 65, 65, 66, 66, 66, 66, 66, 67, 67, 67, 67, 67]))))
   = 28"
proof -
  have "length (rleLoop [(65, 0), (66, 1), (67, 2)]
                  [65, 65, 65, 65, 66, 66, 66, 66, 66, 67, 67, 67, 67, 67] 0 1 []) = 3"
    by (simp add: getIdx_def mapGet_def)
  then show ?thesis
    by (subst encodeMode1_form)
      (simp_all add: symbolTable_abc length_modernContainer bitsFor_3 ceilDiv8_def
        getIdx_def mapGet_def)
qed

lemma compress_abc:
  "compress [65, 65, 65, 65, 65, 66, 66, 66, 66, 66, 67, 67, 67, 67, 67]
   = [80, 87, 68, 67, 2, 0, 15, 0, 0, 0, 3, 0, 65, 66, 67, 0, 84, 165, 42]"
  by (subst compress_nonempty, simp)
    (simp only: encodeMode0_abc length_encodeMode1_abc, simp)

text \<open>
  C8, as amended. For the 15 bytes of "AAAAABBBBBCCCCC", \<^verbatim>\<open>compress\<close> selects mode 0 (the
  packed candidate has 19 bytes, the RLE candidate 28): the output is the 19-byte container
  below, longer than the input, and \<^verbatim>\<open>decompress\<close> of it restores the 15 bytes.
\<close>

theorem compress_AAAAABBBBBCCCCC:
  "compress [65, 65, 65, 65, 65, 66, 66, 66, 66, 66, 67, 67, 67, 67, 67]
     = [80, 87, 68, 67, 2, 0, 15, 0, 0, 0, 3, 0, 65, 66, 67, 0, 84, 165, 42]
   \<and> compress [65, 65, 65, 65, 65, 66, 66, 66, 66, 66, 67, 67, 67, 67, 67] ! 5 = 0
   \<and> length (compress [65, 65, 65, 65, 65, 66, 66, 66, 66, 66, 67, 67, 67, 67, 67]) = 19
   \<and> decompress (compress [65, 65, 65, 65, 65, 66, 66, 66, 66, 66, 67, 67, 67, 67, 67])
     = Inr [65, 65, 65, 65, 65, 66, 66, 66, 66, 66, 67, 67, 67, 67, 67]"
proof -
  have "decompress (compress [65, 65, 65, 65, 65, 66, 66, 66, 66, 66, 67, 67, 67, 67, 67])
     = Inr [65, 65, 65, 65, 65, 66, 66, 66, 66, 66, 67, 67, 67, 67, 67]"
    by (rule compress_roundtrip) simp
  then show ?thesis
    by (simp add: compress_abc)
qed

theorem compress_AAAAABBBBBCCCCC_witness:
  "length (compress [65, 65, 65, 65, 65, 66, 66, 66, 66, 66, 67, 67, 67, 67, 67]) = 19
   \<and> decompress (compress [65, 65, 65, 65, 65, 66, 66, 66, 66, 66, 67, 67, 67, 67, 67])
     = Inr [65, 65, 65, 65, 65, 66, 66, 66, 66, 66, 67, 67, 67, 67, 67]"
  using compress_AAAAABBBBBCCCCC by blast

text \<open>
  C8 as stated fails: the mode byte of the output is not 1 and the output is not shorter
  than 15 bytes.
\<close>

theorem compress_AAAAABBBBBCCCCC_counterexample:
  "\<not> (compress [65, 65, 65, 65, 65, 66, 66, 66, 66, 66, 67, 67, 67, 67, 67] ! 5 = 1
      \<and> length (compress [65, 65, 65, 65, 65, 66, 66, 66, 66, 66, 67, 67, 67, 67, 67]) < 15)"
  by (simp add: compress_abc)

section \<open>Applying a computed delta\<close>

lemma applyLoop_fold:
  assumes "\<forall>j \<in> set js. j < 4294967296"
  shows "applyLoop (map word_of_nat js) (pre @ map (\<lambda>j. C ! j) js) (length pre) result
         = fold (\<lambda>j r. r[j := C ! j]) js result"
  using assms
proof (induction js arbitrary: pre result)
  case Nil
  then show ?case by simp
next
  case (Cons j js)
  have u: "unat (word_of_nat j :: 32 word) = j"
    using Cons.prems by (simp add: unat_of_nat)
  have e: "elemAt (pre @ map (\<lambda>j. C ! j) (j # js)) (length pre) = Some (C ! j)"
    by (simp add: elemAt_def)
  have "applyLoop (map word_of_nat js) ((pre @ [C ! j]) @ map (\<lambda>j. C ! j) js)
          (length (pre @ [C ! j])) (result[j := C ! j])
        = fold (\<lambda>j r. r[j := C ! j]) js (result[j := C ! j])"
    using Cons.prems by (intro Cons.IH) simp
  then show ?case
    using u e by (simp add: toUint8_def)
qed

lemma length_fold_update [simp]: "length (fold (\<lambda>j r. r[j := f j]) js r) = length r"
  by (induction js arbitrary: r) simp_all

lemma nth_fold_update:
  "k < length r \<Longrightarrow>
   fold (\<lambda>j r. r[j := f j]) js r ! k = (if k \<in> set js then f k else r ! k)"
  by (induction js arbitrary: r) (auto simp: nth_list_update)

lemma set_changedIndices:
  "set (changedIndices P C)
   = {i. i < length C \<and> (i < length P \<longrightarrow> P ! i \<noteq> C ! i)}"
  by (auto simp: changedIndices_def Let_def)

lemma applyDelta_start:
  "setBytes (replicate n 0) 0 (sliceArr P 0 n) = padTo n P"
  using setBytes_zeros [of 0 "[]" "take n P" n] by (simp add: sliceArr_def padTo_def)

lemma applyDelta_computeDelta:
  assumes "length C < 4294967296"
  shows "applyDelta P (computeDelta P C) (length C) = C"
proof -
  let ?js = "changedIndices P C"
  have small: "\<forall>j \<in> set ?js. j < 4294967296"
    using assms by (auto simp: set_changedIndices)
  have "applyLoop (map word_of_nat ?js) ([] @ map (\<lambda>j. C ! j) ?js) (length ([] :: byte list))
          (padTo (length C) P)
        = fold (\<lambda>j r. r[j := C ! j]) ?js (padTo (length C) P)"
    by (rule applyLoop_fold [OF small])
  then have a: "applyDelta P (computeDelta P C) (length C)
        = fold (\<lambda>j r. r[j := C ! j]) ?js (padTo (length C) P)"
    by (simp add: applyDelta_def computeDelta_def Let_def applyDelta_start)
  show ?thesis
    unfolding a
  proof (rule nth_equalityI)
    show "length (fold (\<lambda>j r. r[j := C ! j]) ?js (padTo (length C) P)) = length C"
      by simp
  next
    fix k
    assume "k < length (fold (\<lambda>j r. r[j := C ! j]) ?js (padTo (length C) P))"
    then have k: "k < length C" by simp
    show "fold (\<lambda>j r. r[j := C ! j]) ?js (padTo (length C) P) ! k = C ! k"
    proof (cases "k \<in> set ?js")
      case True
      then show ?thesis
        using k by (simp add: nth_fold_update)
    next
      case False
      then have "k < length P" "P ! k = C ! k"
        using k by (auto simp: set_changedIndices)
      then show ?thesis
        using k False by (simp add: nth_fold_update padTo_def nth_append)
    qed
  qed
qed

section \<open>Claim C4: the delta of two buffers\<close>

lemma changedIndices_last:
  "changedIndices (replicate (Suc n) 0) (replicate n 0 @ [1]) = [n]"
proof -
  have "filter (\<lambda>i. replicate (Suc n) (0 :: byte) ! i \<noteq> (replicate n 0 @ [1]) ! i) [0..<n] = []"
    by (auto simp add: filter_empty_conv nth_append simp del: replicate_Suc)
  then show ?thesis
    by (simp add: changedIndices_def nth_append del: replicate_Suc)
qed

lemma applyDelta_wrapped:
  assumes "n mod 4294967296 = 0"
  shows "applyDelta (replicate (Suc n) 0) (computeDelta (replicate (Suc n) 0) (replicate n 0 @ [1]))
           (Suc n) = (replicate (Suc n) 0)[0 := 1]"
proof -
  have w: "(word_of_nat n :: 32 word) = 0"
    using assms by (simp add: word_of_nat_eq_0_iff mod_eq_0_iff_dvd)
  have p: "padTo (Suc n) (replicate (Suc n) (0 :: byte)) = replicate (Suc n) 0"
    by (rule padTo_exact) simp
  show ?thesis
    unfolding applyDelta_def computeDelta_def Let_def changedIndices_last applyDelta_start p
    by (simp add: w elemAt_def toUint8_def nth_append del: replicate_Suc)
qed

text \<open>
  C4, as amended. For every reference buffer \<open>P\<close> and every current buffer \<open>C\<close> of fewer
  than \<open>2 ^ 32\<close> bytes (the lengths may differ), applying \<^verbatim>\<open>computeDelta(P, C)\<close> to \<open>P\<close>
  with the target length \<open>len(C)\<close> reproduces \<open>C\<close>.
\<close>

theorem applyDelta_computeDelta_roundtrip:
  "length C < 4294967296 \<Longrightarrow> applyDelta P (computeDelta P C) (length C) = C"
  by (rule applyDelta_computeDelta)

theorem applyDelta_computeDelta_roundtrip_witness:
  "length [1, 2, 9, 4, 5 :: byte] < 4294967296
   \<and> applyDelta [1, 2, 3] (computeDelta [1, 2, 3] [1, 2, 9, 4, 5]) (length [1, 2, 9, 4, 5 :: byte])
     = [1, 2, 9, 4, 5]
   \<and> length [7 :: byte] < 4294967296
   \<and> applyDelta [1, 2, 3] (computeDelta [1, 2, 3] [7]) (length [7 :: byte]) = [7]"
  using applyDelta_computeDelta_roundtrip [of "[1, 2, 9, 4, 5]" "[1, 2, 3]"]
    applyDelta_computeDelta_roundtrip [of "[7]" "[1, 2, 3]"]
  by simp

text \<open>
  C4 as stated fails: positions are kept in a \<^verbatim>\<open>Uint32Array\<close>, so position \<open>2 ^ 32\<close> is
  stored as 0. With \<open>P\<close> all zero and \<open>C\<close> equal to \<open>P\<close> except for a 1 in its last byte,
  at position \<open>2 ^ 32\<close>, the delta overwrites byte 0 instead.
\<close>

theorem applyDelta_computeDelta_counterexample:
  "applyDelta (replicate 4294967297 0)
     (computeDelta (replicate 4294967297 0) (replicate 4294967296 0 @ [1]))
     (length (replicate 4294967296 (0 :: byte) @ [1]))
   \<noteq> replicate 4294967296 0 @ [1]"
proof -
  have s: "Suc 4294967296 = 4294967297"
    by simp
  have a: "applyDelta (replicate 4294967297 0)
     (computeDelta (replicate 4294967297 0) (replicate 4294967296 0 @ [1])) 4294967297
     = (replicate 4294967297 0)[0 := 1]"
    using applyDelta_wrapped [of 4294967296] unfolding s by simp
  have l: "length (replicate 4294967296 (0 :: byte) @ [1]) = 4294967297"
    by simp
  have "(replicate 4294967297 (0 :: byte))[0 := 1] ! 0 = 1"
    by simp
  moreover have "(replicate 4294967296 (0 :: byte) @ [1]) ! 0 = 0"
    by (simp add: nth_append)
  ultimately have "(replicate 4294967297 (0 :: byte))[0 := 1] \<noteq> replicate 4294967296 0 @ [1]"
    by (metis zero_neq_one)
  then show ?thesis
    unfolding l a .
qed

section \<open>Claim C6: a Delta unit with no reference frame\<close>

lemma decodeLoop_delta_first:
  "deltaBeforeKey data n offset \<Longrightarrow> \<exists>e. decodeLoop data n offset None frames = Inl e"
proof (induction n arbitrary: offset frames)
  case 0
  then show ?case by simp
next
  case (Suc n)
  show ?case
  proof (cases "elemAt data offset = Some 0x44")
    case True
    then show ?thesis
      by (simp add: Let_def split: sum.splits)
  next
    case False
    then have "elemAt data offset \<noteq> Some 0x4b" "deltaBeforeKey data n (offset + 1)"
      using Suc.prems by (auto split: if_splits)
    then show ?thesis
      using False Suc.IH [of "offset + 1" frames] by (simp add: Let_def)
  qed
qed

text \<open>
  C6. For every frame-sequence container in which a Delta unit comes before any Key unit has
  been decoded, \<^verbatim>\<open>decompressFrameSequence\<close> raises an error (the \<^verbatim>\<open>TypeError\<close> of
  \<^verbatim>\<open>referenceFrame!.length\<close> on \<^verbatim>\<open>null\<close>, unless reading the unit has failed before);
  it returns no frame list, so no zero-filled frame is emitted for that unit.
\<close>

theorem delta_before_key_is_error:
  "startsWithDelta data \<Longrightarrow>
   (\<exists>e. decompressFrameSequence data = Inl e)
   \<and> (\<forall>frames. decompressFrameSequence data \<noteq> Inr frames)"
proof -
  assume a: "startsWithDelta data"
  then obtain frameCount where fc: "getUint32 data 0 = Inr frameCount"
    "deltaBeforeKey data frameCount 8"
    by (auto simp: startsWithDelta_def split: sum.splits)
  then have "data \<noteq> []"
    by (auto simp: getUint32_def)
  moreover obtain e where "decodeLoop data frameCount 8 None [] = Inl e"
    using decodeLoop_delta_first [OF fc(2)] by blast
  ultimately have "decompressFrameSequence data = Inl e"
    using fc(1) by (simp add: decompressFrameSequence_def)
  then show ?thesis by simp
qed

lemma delta_stream_example:
  "startsWithDelta [1, 0, 0, 0, 10, 0, 0, 0, 0x44, 0, 0, 0, 0, 0, 0, 0, 0, 11, 0, 0, 0,
                    0x50, 0x57, 0x44, 0x43, 2, 0, 0, 0, 0, 0, 0]"
  by (simp add: startsWithDelta_def getUint32_def elemAt_def)

lemma decompress_empty_container:
  "decompress [0x50, 0x57, 0x44, 0x43, 2, 0, 0, 0, 0, 0, 0] = Inr []"
  by (simp add: decompress_def VERSION_def getUint32_def)

lemma delta_stream_example_error:
  "decompressFrameSequence [1, 0, 0, 0, 10, 0, 0, 0, 0x44, 0, 0, 0, 0, 0, 0, 0, 0, 11, 0, 0, 0,
                            0x50, 0x57, 0x44, 0x43, 2, 0, 0, 0, 0, 0, 0] = Inl TypeError"
  by (simp add: decompressFrameSequence_def getUint32_def elemAt_def sliceArr_def uint32View_def
      decompress_empty_container Let_def)

theorem delta_before_key_is_error_witness:
  "startsWithDelta [1, 0, 0, 0, 10, 0, 0, 0, 0x44, 0, 0, 0, 0, 0, 0, 0, 0, 11, 0, 0, 0,
                    0x50, 0x57, 0x44, 0x43, 2, 0, 0, 0, 0, 0, 0]
   \<and> decompressFrameSequence [1, 0, 0, 0, 10, 0, 0, 0, 0x44, 0, 0, 0, 0, 0, 0, 0, 0, 11, 0, 0, 0,
                              0x50, 0x57, 0x44, 0x43, 2, 0, 0, 0, 0, 0, 0] = Inl TypeError
   \<and> decompressFrameSequence [1, 0, 0, 0, 10, 0, 0, 0, 0x44, 0, 0, 0, 0, 0, 0, 0, 0, 11, 0, 0, 0,
                              0x50, 0x57, 0x44, 0x43, 2, 0, 0, 0, 0, 0, 0] \<noteq> Inr [[]]"
  using delta_before_key_is_error [OF delta_stream_example] delta_stream_example
    delta_stream_example_error
  by blast

section \<open>What the frame encoder writes\<close>

lemma keyHeader_form: "keyHeader cl fl = [0x4b] @ u32le cl @ u32le fl"
proof -
  have s0: "(replicate 9 (0 :: byte))[0 := 0x4b] = [0x4b] @ replicate 8 0"
    using update_zeros [of 0 "[]" 9 "0x4b"] by simp
  have s1: "setUint32 ([0x4b] @ replicate 8 0) 1 cl = ([0x4b] @ u32le cl) @ replicate 4 0"
    using setBytes_zeros [of 1 "[0x4b]" "u32le cl" 8] by (simp add: setUint32_def)
  have s2: "setUint32 (([0x4b] @ u32le cl) @ replicate 4 0) 5 fl
              = ([0x4b] @ u32le cl @ u32le fl) @ replicate 0 0"
    using setBytes_zeros [of 5 "[0x4b] @ u32le cl" "u32le fl" 4] by (simp add: setUint32_def)
  show ?thesis
    unfolding keyHeader_def Let_def s0 s1 s2 by simp
qed

lemma deltaHeader_form: "deltaHeader nc pl vl = [0x44] @ u32le nc @ u32le pl @ u32le vl"
proof -
  have s0: "(replicate 13 (0 :: byte))[0 := 0x44] = [0x44] @ replicate 12 0"
    using update_zeros [of 0 "[]" 13 "0x44"] by simp
  have s1: "setUint32 ([0x44] @ replicate 12 0) 1 nc = ([0x44] @ u32le nc) @ replicate 8 0"
    using setBytes_zeros [of 1 "[0x44]" "u32le nc" 12] by (simp add: setUint32_def)
  have s2: "setUint32 (([0x44] @ u32le nc) @ replicate 8 0) 5 pl
              = ([0x44] @ u32le nc @ u32le pl) @ replicate 4 0"
    using setBytes_zeros [of 5 "[0x44] @ u32le nc" "u32le pl" 8] by (simp add: setUint32_def)
  have s3: "setUint32 (([0x44] @ u32le nc @ u32le pl) @ replicate 4 0) 9 vl
              = ([0x44] @ u32le nc @ u32le pl @ u32le vl) @ replicate 0 0"
    using setBytes_zeros [of 9 "[0x44] @ u32le nc @ u32le pl" "u32le vl" 4]
    by (simp add: setUint32_def)
  show ?thesis
    unfolding deltaHeader_def Let_def s0 s1 s2 s3 by simp
qed

lemma length_positionBytes: "length (positionBytes ps) = 4 * length ps"
  by (induction ps) (simp_all add: positionBytes_def)

lemma u32le_bytes_sum:
  "unat (u32le n ! 0) + 256 * unat (u32le n ! 1) + 65536 * unat (u32le n ! 2)
     + 16777216 * unat (u32le n ! 3) = n mod 4294967296"
  using le32_sum [of n] by (simp add: u32le_def unat_byte_of_nat)

lemma word32_of_bytes:
  "word_of_nat (unat (u32le (unat p) ! 0) + 256 * unat (u32le (unat p) ! 1)
                + 65536 * unat (u32le (unat p) ! 2) + 16777216 * unat (u32le (unat p) ! 3)) = p"
  for p :: "32 word"
proof -
  have "unat p < 4294967296"
    using unsigned_less [of p, where 'a = nat] by simp
  then have m: "unat p mod 4294967296 = unat p"
    by simp
  show ?thesis
    by (simp only: u32le_bytes_sum m) simp
qed

lemma nth_positionBytes:
  "j < length ps \<Longrightarrow> r < 4 \<Longrightarrow> positionBytes ps ! (4 * j + r) = u32le (unat (ps ! j)) ! r"
proof (induction ps arbitrary: j)
  case Nil
  then show ?case by simp
next
  case (Cons p ps)
  have c: "positionBytes (p # ps) = u32le (unat p) @ positionBytes ps"
    by (simp add: positionBytes_def)
  show ?case
  proof (cases j)
    case 0
    then show ?thesis
      using Cons.prems by (simp add: c nth_append)
  next
    case (Suc j')
    then have j': "j' < length ps" using Cons.prems by simp
    have i: "4 * j + r = length (u32le (unat p)) + (4 * j' + r)"
      using Suc by simp
    have "positionBytes (p # ps) ! (4 * j + r) = positionBytes ps ! (4 * j' + r)"
      unfolding c i by (rule nth_append_length_plus)
    then show ?thesis
      using Cons.IH [OF j' Cons.prems(2)] Suc by simp
  qed
qed

lemma uint32View_positionBytes: "uint32View (positionBytes ps) (length ps) = Inr ps"
proof -
  have "word_of_nat (unat (positionBytes ps ! (4 * j))
                     + 256 * unat (positionBytes ps ! (4 * j + 1))
                     + 65536 * unat (positionBytes ps ! (4 * j + 2))
                     + 16777216 * unat (positionBytes ps ! (4 * j + 3))) = ps ! j"
    if "j < length ps" for j
    using nth_positionBytes [OF that, of 0] nth_positionBytes [OF that, of 1]
      nth_positionBytes [OF that, of 2] nth_positionBytes [OF that, of 3]
      word32_of_bytes [of "ps ! j"]
    by simp
  then show ?thesis
    unfolding uint32View_def
    by (auto simp: length_positionBytes intro!: nth_equalityI)
qed

section \<open>Decoding one unit\<close>

lemma sliceArr_here:
  "off = length pre \<Longrightarrow> fin = off + length xs \<Longrightarrow> sliceArr (pre @ xs @ post) off fin = xs"
  by (simp add: sliceArr_def)

lemma decodeLoop_key_step:
  assumes "elemAt data off = Some 0x4b"
    and "getUint32 data (off + 1) = Inr cs"
    and "decompress (sliceArr data (off + 1 + 4 + 4) (off + 1 + 4 + 4 + cs)) = Inr frame"
  shows "decodeLoop data (Suc n) off reference acc
         = decodeLoop data n (off + 1 + 4 + 4 + cs) (Some frame) (acc @ [frame])"
  using assms by (simp add: Let_def)

lemma decodeLoop_delta_step:
  assumes "elemAt data off = Some 0x44"
    and "getUint32 data (off + 1) = Inr nc"
    and "getUint32 data (off + 1 + 4) = Inr pl"
    and "getUint32 data (off + 1 + 8) = Inr vl"
    and "uint32View (sliceArr data (off + 1 + 12) (off + 1 + 12 + pl)) nc = Inr ps"
    and "decompress (sliceArr data (off + 1 + 12 + pl) (off + 1 + 12 + pl + vl)) = Inr vs"
  shows "decodeLoop data (Suc n) off (Some reference) acc
         = decodeLoop data n (off + 1 + 12 + pl + vl) (Some reference)
             (acc @ [applyDelta reference \<lparr>positions = ps, vals = vs\<rparr> (length reference)])"
  using assms by (simp add: Let_def)

lemma decode_key_unit:
  assumes cl: "length compressed < 4294967296"
    and d: "decompress compressed = Inr frame"
  shows "decodeLoop (pre @ (keyHeader (length compressed) fl @ compressed) @ post) (Suc n)
           (length pre) reference acc
         = decodeLoop ((pre @ keyHeader (length compressed) fl @ compressed) @ post) n
             (length (pre @ keyHeader (length compressed) fl @ compressed)) (Some frame)
             (acc @ [frame])"
proof -
  let ?data = "pre @ (keyHeader (length compressed) fl @ compressed) @ post"
  have data: "?data = pre @ [0x4b] @ u32le (length compressed) @ u32le fl @ compressed @ post"
    by (simp add: keyHeader_form)
  have ty: "elemAt ?data (length pre) = Some 0x4b"
    unfolding data by (simp add: elemAt_def)
  have "getUint32 ((pre @ [0x4b]) @ u32le (length compressed) @ u32le fl @ compressed @ post)
          (length pre + 1) = Inr (length compressed mod 4294967296)"
    by (intro getUint32_at) simp
  then have sz: "getUint32 ?data (length pre + 1) = Inr (length compressed)"
    using cl unfolding data by simp
  have "sliceArr ((pre @ [0x4b] @ u32le (length compressed) @ u32le fl) @ compressed @ post)
          (length pre + 1 + 4 + 4) (length pre + 1 + 4 + 4 + length compressed) = compressed"
    by (intro sliceArr_here) simp_all
  then have sl: "sliceArr ?data (length pre + 1 + 4 + 4)
                   (length pre + 1 + 4 + 4 + length compressed) = compressed"
    unfolding data by simp
  have len: "length (pre @ keyHeader (length compressed) fl @ compressed)
               = length pre + 1 + 4 + 4 + length compressed"
    by (simp add: keyHeader_form)
  have "decodeLoop ?data (Suc n) (length pre) reference acc
          = decodeLoop ?data n (length pre + 1 + 4 + 4 + length compressed) (Some frame)
              (acc @ [frame])"
    by (rule decodeLoop_key_step [OF ty sz]) (simp only: sl d)
  then show ?thesis
    by (simp only: len append_assoc)
qed

lemma decode_delta_unit:
  assumes nc: "4 * length ps < 4294967296"
    and vl: "length cv < 4294967296"
    and d: "decompress cv = Inr vs"
  shows "decodeLoop (pre @ (deltaHeader (length ps) (length (positionBytes ps)) (length cv)
                              @ positionBytes ps @ cv) @ post) (Suc n)
           (length pre) (Some reference) acc
         = decodeLoop ((pre @ deltaHeader (length ps) (length (positionBytes ps)) (length cv)
                              @ positionBytes ps @ cv) @ post) n
             (length (pre @ deltaHeader (length ps) (length (positionBytes ps)) (length cv)
                              @ positionBytes ps @ cv))
             (Some reference)
             (acc @ [applyDelta reference \<lparr>positions = ps, vals = vs\<rparr> (length reference)])"
proof -
  let ?pl = "length (positionBytes ps)"
  let ?data = "pre @ (deltaHeader (length ps) ?pl (length cv) @ positionBytes ps @ cv) @ post"
  have data: "?data = pre @ [0x44] @ u32le (length ps) @ u32le ?pl @ u32le (length cv)
                        @ positionBytes ps @ cv @ post"
    by (simp add: deltaHeader_form)
  have ty: "elemAt ?data (length pre) = Some 0x44"
    unfolding data by (simp add: elemAt_def)
  have "getUint32 ((pre @ [0x44]) @ u32le (length ps) @ u32le ?pl @ u32le (length cv)
                        @ positionBytes ps @ cv @ post) (length pre + 1)
          = Inr (length ps mod 4294967296)"
    by (intro getUint32_at) simp
  then have g1: "getUint32 ?data (length pre + 1) = Inr (length ps)"
    using nc unfolding data by simp
  have "getUint32 ((pre @ [0x44] @ u32le (length ps)) @ u32le ?pl @ u32le (length cv)
                        @ positionBytes ps @ cv @ post) (length pre + 1 + 4)
          = Inr (?pl mod 4294967296)"
    by (intro getUint32_at) simp
  then have g2: "getUint32 ?data (length pre + 1 + 4) = Inr ?pl"
    using nc unfolding data by (simp add: length_positionBytes)
  have "getUint32 ((pre @ [0x44] @ u32le (length ps) @ u32le ?pl) @ u32le (length cv)
                        @ positionBytes ps @ cv @ post) (length pre + 1 + 8)
          = Inr (length cv mod 4294967296)"
    by (intro getUint32_at) simp
  then have g3: "getUint32 ?data (length pre + 1 + 8) = Inr (length cv)"
    using vl unfolding data by simp
  have "sliceArr ((pre @ [0x44] @ u32le (length ps) @ u32le ?pl @ u32le (length cv))
                        @ positionBytes ps @ cv @ post)
          (length pre + 1 + 12) (length pre + 1 + 12 + ?pl) = positionBytes ps"
    by (intro sliceArr_here) simp_all
  then have s1: "sliceArr ?data (length pre + 1 + 12) (length pre + 1 + 12 + ?pl)
                   = positionBytes ps"
    unfolding data by simp
  have "sliceArr ((pre @ [0x44] @ u32le (length ps) @ u32le ?pl @ u32le (length cv)
                        @ positionBytes ps) @ cv @ [] @ post)
          (length pre + 1 + 12 + ?pl) (length pre + 1 + 12 + ?pl + length cv) = cv"
    by (intro sliceArr_here [of _ _ _ cv "[] @ post"]) simp_all
  then have s2: "sliceArr ?data (length pre + 1 + 12 + ?pl) (length pre + 1 + 12 + ?pl + length cv)
                   = cv"
    unfolding data by simp
  have len: "length (pre @ deltaHeader (length ps) ?pl (length cv) @ positionBytes ps @ cv)
               = length pre + 1 + 12 + ?pl + length cv"
    by (simp add: deltaHeader_form)
  have "decodeLoop ?data (Suc n) (length pre) (Some reference) acc
          = decodeLoop ?data n (length pre + 1 + 12 + ?pl + length cv) (Some reference)
              (acc @ [applyDelta reference \<lparr>positions = ps, vals = vs\<rparr> (length reference)])"
    by (rule decodeLoop_delta_step [OF ty g1 g2 g3])
      (simp_all only: s1 s2 d uint32View_positionBytes)
  then show ?thesis
    by (simp only: len append_assoc)
qed

section \<open>The frame encoder against the frame decoder\<close>

declare decodeLoop.simps [simp del]

lemma length_compress_le: "length (compress f) \<le> length f + 11"
proof (cases "f = []")
  case True
  then show ?thesis by (simp add: compress_def)
next
  case False
  then show ?thesis
    using length_compress_nonempty [OF False] by simp
qed

lemma length_computeDelta:
  "length (vals (computeDelta r f)) = length (positions (computeDelta r f))"
  by (simp add: computeDelta_def Let_def)

lemma delta_record: "\<lparr>positions = positions d, vals = vals d\<rparr> = d" for d :: DeltaFrame
  by simp

lemma compress_then_decode:
  assumes small: "\<forall>f \<in> set fs. length f < 2147483648"
    and start: "referenceFrame \<noteq> None \<or> fs = [] \<or> (k \<noteq> 0 \<and> i mod k = 0)"
  shows "\<exists>us. compressLoop k fs i referenceFrame chunks = Inr (chunks @ us)
           \<and> (\<forall>pre acc post.
                 decodeLoop (pre @ concat us @ post) (length fs) (length pre) referenceFrame acc
                 = Inr (acc @ reconstruct k fs i referenceFrame))"
  using assms
proof (induction fs arbitrary: i referenceFrame chunks)
  case Nil
  then show ?case by (simp add: decodeLoop.simps(1))
next
  case (Cons f fs)
  have f: "length f < 2147483648" and rest: "\<forall>f \<in> set fs. length f < 2147483648"
    using Cons.prems(1) by simp_all
  let ?c = "compress f"
  let ?kh = "keyHeader (length ?c) (length f)"
  have key_case: ?case
    if enc: "compressLoop k (f # fs) i referenceFrame chunks
               = compressLoop k fs (Suc i) (Some f) (chunks @ [?kh, ?c])"
      and rec: "reconstruct k (f # fs) i referenceFrame = f # reconstruct k fs (Suc i) (Some f)"
  proof -
    obtain us where us: "compressLoop k fs (Suc i) (Some f) (chunks @ [?kh, ?c])
                           = Inr ((chunks @ [?kh, ?c]) @ us)"
      and dec: "\<And>pre acc post.
                 decodeLoop (pre @ concat us @ post) (length fs) (length pre) (Some f) acc
                 = Inr (acc @ reconstruct k fs (Suc i) (Some f))"
      using Cons.IH [OF rest, of "Some f" "Suc i" "chunks @ [?kh, ?c]"] by auto
    have cl: "length ?c < 4294967296"
      using length_compress_le [of f] f by simp
    have rt: "decompress ?c = Inr f"
      using f by (intro compress_roundtrip) simp
    have "decodeLoop (pre @ concat ([?kh, ?c] @ us) @ post) (length (f # fs)) (length pre)
            referenceFrame acc = Inr (acc @ reconstruct k (f # fs) i referenceFrame)"
      for pre acc post
    proof -
      have "decodeLoop (pre @ (?kh @ ?c) @ (concat us @ post)) (Suc (length fs)) (length pre)
              referenceFrame acc
            = decodeLoop ((pre @ ?kh @ ?c) @ (concat us @ post)) (length fs)
                (length (pre @ ?kh @ ?c)) (Some f) (acc @ [f])"
        by (rule decode_key_unit [OF cl rt])
      also have "\<dots> = Inr ((acc @ [f]) @ reconstruct k fs (Suc i) (Some f))"
        by (rule dec)
      finally show ?thesis
        by (simp add: rec del: reconstruct.simps)
    qed
    then show ?thesis
      using us enc by (intro exI [of _ "[?kh, ?c] @ us"]) simp
  qed
  show ?case
  proof (cases "k \<noteq> 0 \<and> i mod k = 0")
    case True
    then show ?thesis
      by (intro key_case) (simp_all add: Let_def)
  next
    case notkey: False
    then obtain r where r: "referenceFrame = Some r"
      using Cons.prems(2) by auto
    let ?d = "computeDelta r f"
    show ?thesis
    proof (cases "2 * length (positions ?d) > length f")
      case True
      then show ?thesis
        using notkey r by (intro key_case) (simp_all add: Let_def)
    next
      case False
      let ?ps = "positions ?d"
      let ?cv = "compress (vals ?d)"
      let ?dh = "deltaHeader (length ?ps) (length (positionBytes ?ps)) (length ?cv)"
      have enc: "compressLoop k (f # fs) i (Some r) chunks
               = compressLoop k fs (Suc i) (Some r) (chunks @ [?dh, positionBytes ?ps, ?cv])"
        using notkey False by (auto simp: Let_def)
      have rec: "reconstruct k (f # fs) i (Some r)
               = applyDelta r ?d (length r) # reconstruct k fs (Suc i) (Some r)"
        using notkey False by auto
      obtain us where us: "compressLoop k fs (Suc i) (Some r)
                             (chunks @ [?dh, positionBytes ?ps, ?cv])
                           = Inr ((chunks @ [?dh, positionBytes ?ps, ?cv]) @ us)"
        and dec: "\<And>pre acc post.
                 decodeLoop (pre @ concat us @ post) (length fs) (length pre) (Some r) acc
                 = Inr (acc @ reconstruct k fs (Suc i) (Some r))"
        using Cons.IH [OF rest, of "Some r" "Suc i" "chunks @ [?dh, positionBytes ?ps, ?cv]"]
        by auto
      have nc: "4 * length ?ps < 4294967296"
        using False f by simp
      have vl: "length ?cv < 4294967296"
        using length_compress_le [of "vals ?d"] False f by (simp add: length_computeDelta)
      have rt: "decompress ?cv = Inr (vals ?d)"
        using False f by (intro compress_roundtrip) (simp add: length_computeDelta)
      have "decodeLoop (pre @ concat ([?dh, positionBytes ?ps, ?cv] @ us) @ post)
              (length (f # fs)) (length pre) (Some r) acc
            = Inr (acc @ reconstruct k (f # fs) i (Some r))"
        for pre acc post
      proof -
        have "decodeLoop (pre @ (?dh @ positionBytes ?ps @ ?cv) @ (concat us @ post))
                (Suc (length fs)) (length pre) (Some r) acc
              = decodeLoop ((pre @ ?dh @ positionBytes ?ps @ ?cv) @ (concat us @ post))
                  (length fs) (length (pre @ ?dh @ positionBytes ?ps @ ?cv)) (Some r)
                  (acc @ [applyDelta r \<lparr>positions = ?ps, vals = vals ?d\<rparr> (length r)])"
          by (rule decode_delta_unit [OF nc vl rt])
        also have "\<dots> = Inr ((acc @ [applyDelta r \<lparr>positions = ?ps, vals = vals ?d\<rparr> (length r)])
                            @ reconstruct k fs (Suc i) (Some r))"
          by (rule dec)
        finally show ?thesis
          by (simp add: rec delta_record del: reconstruct.simps)
      qed
      then show ?thesis
        unfolding r using us enc
        by (intro exI [of _ "[?dh, positionBytes ?ps, ?cv] @ us"]) simp
    qed
  qed
qed

section \<open>Round trip of a frame sequence\<close>

lemma sequence_header_form:
  "setUint32 (setUint32 (replicate 8 0) 0 n) 4 k = u32le n @ u32le k"
proof -
  have s1: "setUint32 (replicate 8 0) 0 n = u32le n @ replicate 4 0"
    using setBytes_zeros [of 0 "[]" "u32le n" 8] by (simp add: setUint32_def)
  have s2: "setUint32 (u32le n @ replicate 4 0) 4 k = (u32le n @ u32le k) @ replicate 0 0"
    using setBytes_zeros [of 4 "u32le n" "u32le k" 4] by (simp add: setUint32_def)
  show ?thesis
    unfolding s1 s2 by simp
qed

lemma roundTripFrames_reconstruct:
  assumes k: "k \<noteq> 0"
    and count: "length F < 4294967296"
    and small: "\<forall>f \<in> set F. length f < 2147483648"
  shows "roundTripFrames F k = Inr (reconstruct k F 0 None)"
proof (cases "F = []")
  case True
  then show ?thesis
    by (simp add: roundTripFrames_def compressFrameSequence_def decompressFrameSequence_def)
next
  case False
  let ?header = "u32le (length F) @ u32le k"
  obtain us where us: "compressLoop k F 0 None [?header] = Inr ([?header] @ us)"
    and dec: "\<And>pre acc post.
                 decodeLoop (pre @ concat us @ post) (length F) (length pre) None acc
                 = Inr (acc @ reconstruct k F 0 None)"
    using compress_then_decode [OF small, of None k 0 "[?header]"] k by auto
  have c: "compressFrameSequence F k = Inr (?header @ concat us)"
    using False us by (simp add: compressFrameSequence_def Let_def sequence_header_form)
  have "getUint32 ([] @ u32le (length F) @ u32le k @ concat us) 0 = Inr (length F mod 4294967296)"
    by (intro getUint32_at) simp
  then have fc: "getUint32 (?header @ concat us) 0 = Inr (length F)"
    using count by simp
  have "decodeLoop (?header @ concat us @ []) (length F) (length ?header) None []
          = Inr ([] @ reconstruct k F 0 None)"
    by (rule dec)
  then have loop: "decodeLoop (?header @ concat us) (length F) 8 None []
                     = Inr (reconstruct k F 0 None)"
    by simp
  have "decompressFrameSequence (?header @ concat us) = Inr (reconstruct k F 0 None)"
    unfolding decompressFrameSequence_def using fc loop by simp
  then show ?thesis
    by (simp add: roundTripFrames_def c)
qed

lemma reconstruct_same_length:
  assumes same: "\<forall>f \<in> set fs. length f = n"
    and reference: "\<forall>r. referenceFrame = Some r \<longrightarrow> length r = n"
    and n: "n < 4294967296"
    and start: "referenceFrame \<noteq> None \<or> fs = [] \<or> (k \<noteq> 0 \<and> i mod k = 0)"
  shows "reconstruct k fs i referenceFrame = fs"
  using same reference start
proof (induction fs arbitrary: i referenceFrame)
  case Nil
  then show ?case by simp
next
  case (Cons f fs)
  have f: "length f = n" and rest: "\<forall>f \<in> set fs. length f = n"
    using Cons.prems(1) by simp_all
  have key: "reconstruct k fs (Suc i) (Some f) = fs"
    using f by (intro Cons.IH [OF rest]) simp_all
  show ?case
  proof (cases "k \<noteq> 0 \<and> i mod k = 0")
    case True
    then show ?thesis
      using key by simp
  next
    case False
    then obtain r where r: "referenceFrame = Some r"
      using Cons.prems(3) by auto
    then have lr: "length r = n"
      using Cons.prems(2) by simp
    have "applyDelta r (computeDelta r f) (length f) = f"
      using f n by (intro applyDelta_computeDelta) simp
    then have d: "applyDelta r (computeDelta r f) (length r) = f"
      using lr f by simp
    have "reconstruct k fs (Suc i) (Some r) = fs"
      using lr by (intro Cons.IH [OF rest]) simp_all
    then show ?thesis
      using False r d key by auto
  qed
qed

section \<open>Claim C2: frame sequences\<close>

lemma reconstruct_shorter_frame:
  "reconstruct 10 [[1, 2, 3, 4], [1, 2, 3]] 0 None = [[1, 2, 3, 4], [1, 2, 3, 4]]"
proof -
  have c: "changedIndices [1, 2, 3, 4] [1, 2, 3 :: byte] = []"
    by (simp add: changedIndices_def)
  have d: "computeDelta [1, 2, 3, 4] [1, 2, 3] = \<lparr>positions = [], vals = []\<rparr>"
    by (simp add: computeDelta_def c)
  have a: "applyDelta [1, 2, 3, 4] \<lparr>positions = [], vals = []\<rparr> (Suc (Suc (Suc (Suc 0))))
             = [1, 2, 3, 4]"
    unfolding applyDelta_def Let_def applyDelta_start by (simp add: padTo_def)
  show ?thesis
    by (simp add: d a)
qed

text \<open>
  C2, as amended. For every ordered list \<open>F\<close> of fewer than \<open>2 ^ 32\<close> buffers that all have
  the same length \<open>n < 2 ^ 31\<close>, and every keyframe interval \<open>k \<ge> 1\<close>,
  \<^verbatim>\<open>decompressFrameSequence(compressFrameSequence(F, k))\<close> returns \<open>F\<close>.
\<close>

theorem frame_sequence_roundtrip:
  assumes "1 \<le> k"
    and "length F < 4294967296"
    and "\<forall>f \<in> set F. length f = n"
    and "n < 2147483648"
  shows "roundTripFrames F k = Inr F"
proof -
  have "roundTripFrames F k = Inr (reconstruct k F 0 None)"
    using assms by (intro roundTripFrames_reconstruct) auto
  moreover have "reconstruct k F 0 None = F"
    using assms by (intro reconstruct_same_length [where n = n]) auto
  ultimately show ?thesis
    by simp
qed

theorem frame_sequence_roundtrip_witness:
  "(1::nat) \<le> 2
   \<and> length [[1, 2, 3, 4], [1, 2, 3, 5], [9, 9, 9, 9 :: byte]] < 4294967296
   \<and> map length [[1, 2, 3, 4], [1, 2, 3, 5], [9, 9, 9, 9 :: byte]] = [4, 4, 4]
   \<and> (4::nat) < 2147483648
   \<and> roundTripFrames [[1, 2, 3, 4], [1, 2, 3, 5], [9, 9, 9, 9]] 2
       = Inr [[1, 2, 3, 4], [1, 2, 3, 5], [9, 9, 9, 9]]"
  using frame_sequence_roundtrip [of 2 "[[1, 2, 3, 4], [1, 2, 3, 5], [9, 9, 9, 9]]" 4]
  by simp

text \<open>
  C2 as stated fails for frames of varying lengths: a Delta unit carries no frame length, and
  the decoder applies it at the length of the reference frame. With \<open>k = 10\<close>, the frame
  \<open>[1, 2, 3]\<close> following \<open>[1, 2, 3, 4]\<close> has no changed position, is sent as a Delta unit and
  comes back as \<open>[1, 2, 3, 4]\<close>.
\<close>

theorem frame_sequence_roundtrip_counterexample:
  "roundTripFrames [[1, 2, 3, 4], [1, 2, 3]] 10 = Inr [[1, 2, 3, 4], [1, 2, 3, 4]]
   \<and> roundTripFrames [[1, 2, 3, 4], [1, 2, 3]] 10 \<noteq> Inr [[1, 2, 3, 4], [1, 2, 3]]"
proof -
  have "roundTripFrames [[1, 2, 3, 4], [1, 2, 3]] 10
          = Inr (reconstruct 10 [[1, 2, 3, 4], [1, 2, 3]] 0 None)"
    by (intro roundTripFrames_reconstruct) auto
  then show ?thesis
    unfolding reconstruct_shorter_frame by simp
qed

end
